theory Spec2Isabelle
  imports Main "HOL-Library.Word" "HOL-Library.Signed_Division"
begin

unbundle bit_operations_syntax

section \<open>Configuration and data model of upmain.c\<close>

text \<open>
  The program is one C file for an ESP32 under FreeRTOS. The shared data are the file's
  static variables. The tasks and the interrupt handler are modelled twice: first one
  loop iteration (one handler call) at a time, as functions on a record of those
  variables, then one statement at a time, with the two tasks and the handler
  interleaved. What the runtime decides (the tick count, the ADC reading, whether a
  timed semaphore wait succeeds, the contents of an uninitialised stack array) is an
  argument of the function. Every call an iteration makes into the runtime is logged in
  the order the source makes it.
\<close>

type_synonym u16 = "16 word"
type_synonym u32 = "32 word"

definition LOG_SIZE :: nat where
  "LOG_SIZE = 50"

definition LIGHT_THRESHOLD :: nat where
  "LIGHT_THRESHOLD = 3000"

definition DEBOUNCE_MS :: u32 where
  "DEBOUNCE_MS = 50"

text \<open>
  The static variables (lines 22 to 31). \<open>log_index\<close> and \<open>latest_adc\<close> are C \<open>int\<close>s,
  \<open>adc_log\<close> is an array of \<open>LOG_SIZE\<close> \<open>uint16_t\<close>, \<open>last_interrupt_time\<close> is a
  \<open>TickType_t\<close> (32 bit on this target). \<open>xButtonSem\<close> is the pending flag of the binary
  semaphore the handle refers to, \<open>sensorTaskHandle\<close> says whether the handle is non-NULL,
  and \<open>sensor_suspended\<close> is the scheduler's suspended flag of the sensor task.
\<close>

record globals =
  adc_log :: "u16 list"
  log_index :: int
  latest_adc :: int
  xButtonSem :: bool
  sensorTaskHandle :: bool
  last_interrupt_time :: u32
  sensor_suspended :: bool

text \<open>The values the static initialisers give at program load.\<close>

definition static_init :: globals where
  "static_init =
     \<lparr>adc_log = replicate LOG_SIZE 0, log_index = 0, latest_adc = 0,
      xButtonSem = False, sensorTaskHandle = False, last_interrupt_time = 0,
      sensor_suspended = False\<rparr>"

datatype sem = ButtonSem | LogMutex

datatype printed =
    SensorRead int
  | ButtonPressed
  | LogDump nat u16 u16 u16 nat int

text \<open>
  The runtime calls of the tasks: \<open>Take s (Some ms) r\<close> is
  \<open>xSemaphoreTake(s, pdMS_TO_TICKS(ms))\<close> returning \<open>r\<close>, \<open>Take s None r\<close> waits with
  \<open>portMAX_DELAY\<close>.
\<close>

datatype rt_call =
    Take sem "nat option" bool
  | Give sem
  | GiveFromISR sem
  | Suspend
  | Resume
  | Delay nat
  | Led bool
  | Print printed

datatype fault = OutOfBounds | AssertFailed

section \<open>The interrupt handler\<close>

text \<open>
  \<open>button_isr_handler\<close> (lines 34 to 42). \<open>now\<close> is the value of
  \<open>xTaskGetTickCountFromISR()\<close>, \<open>period\<close> is \<open>portTICK_PERIOD_MS\<close>, which the file takes
  from the FreeRTOS configuration. The subtraction, the product and the comparison are
  unsigned 32-bit.
\<close>

text \<open>
  Modelled from the spec: the binary semaphore behind \<open>xButtonSem\<close>. Line 133 creates it
  with \<open>xSemaphoreCreateBinary\<close>, line 39 gives it and line 87 takes it, but the
  semaphore itself is FreeRTOS code and not part of the sources. It is the
  specification's Event, "a single-slot pending/not-pending flag (not a queue)":
  "signaling a single-slot event that is already pending is a no-op (coalescing, not
  queuing)", the consumer blocks on it with no timeout, and consuming it clears the
  pending state. The field \<open>xButtonSem\<close> is that flag; the give below sets it, and the
  take at the head of the logger's loop waits for it and clears it.
\<close>

definition xSemaphoreGiveFromISR :: "'a globals_scheme \<Rightarrow> 'a globals_scheme" where
  "xSemaphoreGiveFromISR g = g\<lparr>xButtonSem := True\<rparr>"

definition button_isr_handler ::
  "u32 \<Rightarrow> u32 \<Rightarrow> 'a globals_scheme \<Rightarrow> rt_call list \<times> 'a globals_scheme" where
  "button_isr_handler period now g =
     (if DEBOUNCE_MS \<le> (now - last_interrupt_time g) * period
      then ([GiveFromISR ButtonSem], xSemaphoreGiveFromISR (g\<lparr>last_interrupt_time := now\<rparr>))
      else ([], g))"

text \<open>
  A sequence of edges, each with its tick count: the handler runs once per edge. The
  result lists the ticks of the edges that gave the semaphore.
\<close>

fun isr_edges :: "u32 \<Rightarrow> u32 list \<Rightarrow> globals \<Rightarrow> u32 list \<times> globals" where
  "isr_edges period [] g = ([], g)"
| "isr_edges period (now # rest) g =
     (let (calls, g') = button_isr_handler period now g;
          (acc, g'') = isr_edges period rest g'
      in ((if calls = [] then acc else now # acc), g''))"

section \<open>The sensor task\<close>

text \<open>
  One iteration of the loop of \<open>LightSensorTask\<close> (lines 68 to 81). \<open>adc_val\<close> is what
  \<open>adc1_get_raw\<close> returned and \<open>took\<close> is the result of
  \<open>xSemaphoreTake(xLogMutex, pdMS_TO_TICKS(10))\<close>. The store converts the \<open>int\<close> to
  \<open>uint16_t\<close>; \<open>%\<close> is C's remainder, which truncates towards zero. An index outside
  the array is undefined behaviour in C and a fault here.
\<close>

definition log_store :: "int \<Rightarrow> 'a globals_scheme \<Rightarrow> fault + 'a globals_scheme" where
  "log_store adc_val g =
     (if 0 \<le> log_index g \<and> log_index g < int (length (adc_log g))
      then Inr (g\<lparr>adc_log := (adc_log g)[nat (log_index g) := of_int adc_val]\<rparr>)
      else Inl OutOfBounds)"

definition log_advance :: "'a globals_scheme \<Rightarrow> 'a globals_scheme" where
  "log_advance g = g\<lparr>log_index := (log_index g + 1) smod int LOG_SIZE\<rparr>"

definition LightSensorTask_iter ::
  "int \<Rightarrow> bool \<Rightarrow> globals \<Rightarrow> fault + rt_call list \<times> globals" where
  "LightSensorTask_iter adc_val took g =
     (let g1 = g\<lparr>latest_adc := adc_val\<rparr> in
      if took then
        (case log_store adc_val g1 of
           Inl e \<Rightarrow> Inl e
         | Inr g2 \<Rightarrow>
             Inr ([Print (SensorRead adc_val), Take LogMutex (Some 10) True,
                   Give LogMutex, Delay 200], log_advance g2))
      else Inr ([Print (SensorRead adc_val), Take LogMutex (Some 10) False, Delay 200], g1))"

text \<open>
  The iterations of the sensor task on a list of readings, each with the outcome of its
  mutex wait; a fault ends the run.
\<close>

fun LightSensorTask_run :: "(int \<times> bool) list \<Rightarrow> globals \<Rightarrow> fault + globals" where
  "LightSensorTask_run [] g = Inr g"
| "LightSensorTask_run ((adc_val, took) # rest) g =
     (case LightSensorTask_iter adc_val took g of
        Inl e \<Rightarrow> Inl e
      | Inr (calls, g') \<Rightarrow> LightSensorTask_run rest g')"

text \<open>
  The array invariant of the log (the array has \<open>LOG_SIZE\<close> elements and the index is
  inside it), and the log read in circular order from the write index: oldest entry first.
\<close>

definition log_inv :: "'a globals_scheme \<Rightarrow> bool" where
  "log_inv g =
     (length (adc_log g) = LOG_SIZE \<and> 0 \<le> log_index g \<and> log_index g < int LOG_SIZE)"

definition log_view :: "globals \<Rightarrow> u16 list" where
  "log_view g = rotate (nat (log_index g)) (adc_log g)"

section \<open>The logger task\<close>

text \<open>
  \<open>memcpy\<close> of \<open>n\<close> array elements: the first \<open>n\<close> elements of the destination become
  those of the source.
\<close>

definition memcpy_u16 :: "u16 list \<Rightarrow> u16 list \<Rightarrow> nat \<Rightarrow> u16 list" where
  "memcpy_u16 dst src n = take n src @ drop n dst"

text \<open>
  The statistics loop (lines 110 to 122): a \<open>uint32_t\<close> sum, \<open>uint16_t\<close> minimum and
  maximum starting at 4095 and 0, an \<open>int\<close> counter. The comparisons are on the promoted
  values, the addition is unsigned 32-bit.
\<close>

record stats =
  s_sum :: u32
  s_min :: u16
  s_max :: u16
  over_threshold_count :: int

definition stats_init :: stats where
  "stats_init = \<lparr>s_sum = 0, s_min = 4095, s_max = 0, over_threshold_count = 0\<rparr>"

definition stats_step :: "u16 \<Rightarrow> stats \<Rightarrow> stats" where
  "stats_step val a =
     \<lparr>s_sum = s_sum a + ucast val,
      s_min = (if val < s_min a then val else s_min a),
      s_max = (if val > s_max a then val else s_max a),
      over_threshold_count =
        (if unat val > LIGHT_THRESHOLD then over_threshold_count a + 1
         else over_threshold_count a)\<rparr>"

definition stats_loop :: "u16 list \<Rightarrow> stats" where
  "stats_loop buffer = fold (\<lambda>i. stats_step (buffer ! i)) [0..<LOG_SIZE] stats_init"

text \<open>\<open>uint16_t avg = sum / LOG_SIZE\<close>: unsigned 32-bit division, then the low 16 bits.\<close>

definition stats_avg :: "stats \<Rightarrow> u16" where
  "stats_avg a = ucast (s_sum a div of_nat LOG_SIZE)"

definition log_dump :: "u16 list \<Rightarrow> printed" where
  "log_dump buffer =
     (let a = stats_loop buffer
      in LogDump LOG_SIZE (s_min a) (s_max a) (stats_avg a) LIGHT_THRESHOLD
           (over_threshold_count a))"

text \<open>
  One iteration of the loop of \<open>LoggerTask\<close> (lines 86 to 126). The task blocks on the
  button semaphore until it is pending (\<open>None\<close>: still blocked) and takes it. \<open>took\<close> is
  the result of \<open>xSemaphoreTake(xLogMutex, pdMS_TO_TICKS(50))\<close>, \<open>buffer0\<close> is what the
  uninitialised array \<open>buffer\<close> holds when the block is entered. The result is the calls
  made, the array \<open>buffer\<close> the statistics read, and the variables afterwards.
\<close>

definition snapshot :: "bool \<Rightarrow> u16 list \<Rightarrow> globals \<Rightarrow> rt_call list \<times> u16 list" where
  "snapshot took buffer0 g =
     (if took
      then ([Take LogMutex (Some 50) True, Give LogMutex],
            memcpy_u16 buffer0 (adc_log g) LOG_SIZE)
      else ([Take LogMutex (Some 50) False], buffer0))"

definition LoggerTask_iter ::
  "bool \<Rightarrow> u16 list \<Rightarrow> globals \<Rightarrow> (rt_call list \<times> u16 list \<times> globals) option" where
  "LoggerTask_iter took buffer0 g =
     (if \<not> xButtonSem g then None
      else
        let g1 = g\<lparr>xButtonSem := False\<rparr>;
            ack = [Take ButtonSem None True, Led True, Delay 150, Led False,
                   Print ButtonPressed];
            (c2, g2) = (if sensorTaskHandle g1
                        then ([Suspend], g1\<lparr>sensor_suspended := True\<rparr>) else ([], g1));
            (c3, buffer) = snapshot took buffer0 g2;
            (c4, g4) = (if sensorTaskHandle g2
                        then ([Resume], g2\<lparr>sensor_suspended := False\<rparr>) else ([], g2))
        in Some (ack @ c2 @ c3 @ c4 @ [Print (log_dump buffer)], buffer, g4))"

text \<open>
  The logger's loop with nothing else running: it iterates until it blocks on the button
  semaphore. The list gives the mutex outcome and the stale array contents of each
  iteration it may make; the result is every call the iterations made, in order.
\<close>

fun LoggerTask_run :: "(bool \<times> u16 list) list \<Rightarrow> globals \<Rightarrow> rt_call list \<times> globals" where
  "LoggerTask_run [] g = ([], g)"
| "LoggerTask_run ((took, buffer0) # rest) g =
     (case LoggerTask_iter took buffer0 g of
        None \<Rightarrow> ([], g)
      | Some (calls, buffer, g') \<Rightarrow>
          (let (more_calls, g'') = LoggerTask_run rest g'
           in (calls @ more_calls, g'')))"

section \<open>Startup\<close>

text \<open>
  \<open>app_main\<close> (lines 130 to 156): it creates the two semaphores, asserts that both exist,
  configures the pins, installs the handler and creates the four tasks. The arguments say
  whether the creation of each semaphore and of the sensor task succeeded; the result of
  \<open>xTaskCreatePinnedToCore\<close> is not tested, and a failed creation leaves
  \<open>sensorTaskHandle\<close> as it was. A new binary semaphore is not pending; a new task is
  not suspended. No statement of \<open>app_main\<close> assigns the log, its index, the latest
  reading or the debounce time.
\<close>

definition app_main :: "bool \<Rightarrow> bool \<Rightarrow> bool \<Rightarrow> globals \<Rightarrow> fault + globals" where
  "app_main sem_created mutex_created sensor_created g =
     (if sem_created \<and> mutex_created
      then Inr (g\<lparr>xButtonSem := False,
                  sensorTaskHandle := (sensor_created \<or> sensorTaskHandle g),
                  sensor_suspended := False\<rparr>)
      else Inl AssertFailed)"


section \<open>The tasks running concurrently\<close>

text \<open>
  The sensor task, the logger task and the interrupt handler as one system, one statement
  at a time. Each task has a program counter; the scheduler is any sequence of events, so
  a task can be preempted between any two of its statements, and nothing is assumed about
  priorities or time. The mutex is its owner. A 16-bit array element is read and written
  in one piece; \<open>memcpy\<close> copies one element per step.
\<close>

datatype task = Sensor | Logger

text \<open>
  The statements of the loop of \<open>LightSensorTask\<close>: lines 69 to 72, line 74, line 75,
  line 76, line 77, line 80.
\<close>

datatype sensor_pc = S_Read | S_Take | S_Store | S_Advance | S_Give | S_Delay

text \<open>
  The statements of the loop of \<open>LoggerTask\<close>: line 87, lines 90 to 94, lines 96 to 98,
  line 101, line 102 (the index of the element to copy next), line 103, lines 106 to 108
  and lines 110 to 125. The last two remember whether the mutex wait of line 101
  succeeded.
\<close>

datatype logger_pc =
    L_Wait | L_Ack | L_Suspend | L_Take | L_Copy nat | L_Give | L_Resume bool | L_Report bool

text \<open>
  The static variables with the mutex, the tasks' program counters and locals, and what
  was printed. \<open>history\<close> is not a program variable: it lists the samples stored in the
  log so far.
\<close>

record sys = globals +
  xLogMutex :: "task option"
  sensor_pc :: sensor_pc
  adc_val :: int
  logger_pc :: logger_pc
  buffer :: "u16 list"
  printed :: "printed list"
  history :: "int list"

text \<open>
  The system when the tasks start: the static initial values, the semaphores and tasks
  created by \<open>app_main\<close>, the array \<open>buffer\<close> of the logger holding whatever is at its
  place on the stack.
\<close>

definition sys_init :: "u16 list \<Rightarrow> sys" where
  "sys_init stale =
     \<lparr>adc_log = replicate LOG_SIZE 0, log_index = 0, latest_adc = 0,
      xButtonSem = False, sensorTaskHandle = True, last_interrupt_time = 0,
      sensor_suspended = False,
      xLogMutex = None, sensor_pc = S_Read, adc_val = 0, logger_pc = L_Wait,
      buffer = stale, printed = [], history = []\<rparr>"

text \<open>
  One statement of the sensor task; a suspended task does not run. A wait for a mutex
  that another task holds either goes on (no change) or times out.
\<close>

definition sensor_step :: "int \<Rightarrow> bool \<Rightarrow> sys \<Rightarrow> fault + sys" where
  "sensor_step v timeout st =
     (if sensor_suspended st then Inr st
      else case sensor_pc st of
        S_Read \<Rightarrow> Inr (st\<lparr>latest_adc := v, adc_val := v, sensor_pc := S_Take\<rparr>)
      | S_Take \<Rightarrow>
          (case xLogMutex st of
             None \<Rightarrow> Inr (st\<lparr>xLogMutex := Some Sensor, sensor_pc := S_Store\<rparr>)
           | Some owner \<Rightarrow> Inr (if timeout then st\<lparr>sensor_pc := S_Delay\<rparr> else st))
      | S_Store \<Rightarrow>
          (case log_store (adc_val st) st of
             Inl e \<Rightarrow> Inl e
           | Inr st' \<Rightarrow>
               Inr (st'\<lparr>sensor_pc := S_Advance, history := history st @ [adc_val st]\<rparr>))
      | S_Advance \<Rightarrow> Inr ((log_advance st)\<lparr>sensor_pc := S_Give\<rparr>)
      | S_Give \<Rightarrow> Inr (st\<lparr>xLogMutex := None, sensor_pc := S_Delay\<rparr>)
      | S_Delay \<Rightarrow> Inr (st\<lparr>sensor_pc := S_Read\<rparr>))"

text \<open>One statement of the logger task.\<close>

definition logger_step :: "bool \<Rightarrow> sys \<Rightarrow> sys" where
  "logger_step timeout st =
     (case logger_pc st of
        L_Wait \<Rightarrow> if xButtonSem st then st\<lparr>xButtonSem := False, logger_pc := L_Ack\<rparr> else st
      | L_Ack \<Rightarrow> st\<lparr>logger_pc := L_Suspend\<rparr>
      | L_Suspend \<Rightarrow>
          (if sensorTaskHandle st then st\<lparr>sensor_suspended := True, logger_pc := L_Take\<rparr>
           else st\<lparr>logger_pc := L_Take\<rparr>)
      | L_Take \<Rightarrow>
          (case xLogMutex st of
             None \<Rightarrow> st\<lparr>xLogMutex := Some Logger, logger_pc := L_Copy 0\<rparr>
           | Some owner \<Rightarrow> if timeout then st\<lparr>logger_pc := L_Resume False\<rparr> else st)
      | L_Copy k \<Rightarrow>
          st\<lparr>buffer := (buffer st)[k := adc_log st ! k],
             logger_pc := (if Suc k < LOG_SIZE then L_Copy (Suc k) else L_Give)\<rparr>
      | L_Give \<Rightarrow> st\<lparr>xLogMutex := None, logger_pc := L_Resume True\<rparr>
      | L_Resume took \<Rightarrow>
          (if sensorTaskHandle st
           then st\<lparr>sensor_suspended := False, logger_pc := L_Report took\<rparr>
           else st\<lparr>logger_pc := L_Report took\<rparr>)
      | L_Report took \<Rightarrow>
          st\<lparr>printed := printed st @ [log_dump (buffer st)], logger_pc := L_Wait\<rparr>)"

text \<open>
  An event is an edge on the button pin at a tick count, or one task running its next
  statement. The reading is used by the statement that reads the ADC, the flag by a wait
  on a mutex that is held.
\<close>

datatype event = Edge u32 | SensorRuns int bool | LoggerRuns bool

fun step :: "u32 \<Rightarrow> event \<Rightarrow> sys \<Rightarrow> fault + sys" where
  "step period (Edge now) st = Inr (snd (button_isr_handler period now st))"
| "step period (SensorRuns v timeout) st = sensor_step v timeout st"
| "step period (LoggerRuns timeout) st = Inr (logger_step timeout st)"

fun run :: "u32 \<Rightarrow> event list \<Rightarrow> sys \<Rightarrow> fault + sys" where
  "run period [] st = Inr st"
| "run period (e # es) st =
     (case step period e st of Inl f \<Rightarrow> Inl f | Inr st' \<Rightarrow> run period es st')"

text \<open>
  The invariant of the system: the log array invariant; each task owns the mutex exactly
  inside its critical section; the copy has reached its index and is complete when the
  logger gives the mutex; with the task handle set, the sensor is suspended exactly
  between the logger's suspend and resume; every element of the log, and of a copied
  snapshot, is 0 or a stored sample.
\<close>

definition sys_inv :: "sys \<Rightarrow> bool" where
  "sys_inv st =
     (log_inv st \<and> length (buffer st) = LOG_SIZE
      \<and> ((xLogMutex st = Some Sensor) = (sensor_pc st \<in> {S_Store, S_Advance, S_Give}))
      \<and> ((xLogMutex st = Some Logger) = (logger_pc st = L_Give \<or> (\<exists>k. logger_pc st = L_Copy k)))
      \<and> (\<forall>k. logger_pc st = L_Copy k \<longrightarrow>
            k < LOG_SIZE \<and> take k (buffer st) = take k (adc_log st))
      \<and> (logger_pc st = L_Give \<or> (sensorTaskHandle st \<and> logger_pc st = L_Resume True) \<longrightarrow>
            buffer st = adc_log st)
      \<and> (sensorTaskHandle st \<longrightarrow>
            sensor_suspended st =
              (logger_pc st = L_Take \<or> logger_pc st = L_Give \<or> (\<exists>k. logger_pc st = L_Copy k)
               \<or> (\<exists>t. logger_pc st = L_Resume t)))
      \<and> (\<forall>x\<in>set (adc_log st). x = 0 \<or> x \<in> of_int ` set (history st))
      \<and> (logger_pc st = L_Report True \<or> logger_pc st = L_Resume True \<longrightarrow>
            (\<forall>x\<in>set (buffer st). x = 0 \<or> x \<in> of_int ` set (history st))))"

section \<open>The debounce rule\<close>

lemma button_isr_handler_cases:
  "button_isr_handler p now g =
     (if (now - last_interrupt_time g) * p < DEBOUNCE_MS then ([], g)
      else ([GiveFromISR ButtonSem], g\<lparr>last_interrupt_time := now, xButtonSem := True\<rparr>))"
  by (simp add: button_isr_handler_def xSemaphoreGiveFromISR_def not_le [symmetric])

lemma elapsed_ms_unat:
  "unat ((now - lst) * p :: u32) = (unat (now - lst) * unat p) mod 2 ^ 32"
  by (simp add: unat_word_ariths)

lemma elapsed_ticks_unat:
  "lst \<le> now \<Longrightarrow> unat (now - lst :: u32) = unat now - unat lst"
  by (simp add: unat_sub)

section \<open>The statistics loop\<close>

lemma stats_loop_fold:
  "length buf = LOG_SIZE \<Longrightarrow> stats_loop buf = fold stats_step buf stats_init"
proof -
  assume len: "length buf = LOG_SIZE"
  have "fold (\<lambda>i. stats_step (buf ! i)) [0..<length buf] stats_init
        = fold stats_step (map ((!) buf) [0..<length buf]) stats_init"
    by (simp add: fold_map comp_def)
  also have "\<dots> = fold stats_step buf stats_init"
    by (simp add: map_nth)
  finally show ?thesis
    by (simp add: stats_loop_def len)
qed

lemma stats_step_sum: "s_sum (stats_step v a) = s_sum a + of_nat (unat v)"
  by (simp add: stats_step_def)

lemma fold_stats_sum:
  "s_sum (fold stats_step xs a) = s_sum a + of_nat (sum_list (map unat xs))"
proof (induction xs arbitrary: a)
  case Nil
  then show ?case by simp
next
  case (Cons x xs)
  have "s_sum (fold stats_step (x # xs) a) = s_sum (stats_step x a) + of_nat (sum_list (map unat xs))"
    using Cons [of "stats_step x a"] by simp
  also have "\<dots> = s_sum a + (of_nat (unat x) + of_nat (sum_list (map unat xs)))"
    by (simp only: stats_step_sum add.assoc)
  finally show ?case
    by (simp only: list.map sum_list.Cons of_nat_add)
qed

lemma fold_stats_min:
  "s_min (fold stats_step xs a) = Min (insert (s_min a) (set xs))"
proof (induction xs arbitrary: a)
  case Nil
  then show ?case by simp
next
  case (Cons x xs)
  have "Min (insert (s_min (stats_step x a)) (set xs)) = Min (insert (s_min a) (insert x (set xs)))"
    by (cases "set xs = {}") (auto simp: stats_step_def min_def Min_insert2 insert_commute)
  with Cons show ?case by simp
qed

lemma fold_stats_max:
  "s_max (fold stats_step xs a) = Max (insert (s_max a) (set xs))"
proof (induction xs arbitrary: a)
  case Nil
  then show ?case by simp
next
  case (Cons x xs)
  have "Max (insert (s_max (stats_step x a)) (set xs)) = Max (insert (s_max a) (insert x (set xs)))"
    by (cases "set xs = {}") (auto simp: stats_step_def max_def insert_commute)
  with Cons show ?case by simp
qed

lemma fold_stats_over:
  "over_threshold_count (fold stats_step xs a) =
     over_threshold_count a + int (length (filter (\<lambda>v. LIGHT_THRESHOLD < unat v) xs))"
  by (induction xs arbitrary: a) (simp_all add: stats_step_def)

lemma sum_list_bound:
  "\<forall>v\<in>set xs. f v \<le> (b::nat) \<Longrightarrow> sum_list (map f xs) \<le> length xs * b"
  by (induction xs) auto


lemma stats_sum_exact:
  assumes "length buf = LOG_SIZE" "\<forall>v\<in>set buf. unat v \<le> 4095"
  shows "unat (s_sum (stats_loop buf)) = sum_list (map unat buf)"
    and "sum_list (map unat buf) \<le> 204750"
proof -
  have "sum_list (map unat buf) \<le> length buf * 4095"
    using assms(2) by (rule sum_list_bound)
  then show b: "sum_list (map unat buf) \<le> 204750"
    using assms(1) by (simp add: LOG_SIZE_def)
  have "s_sum (stats_loop buf) = of_nat (sum_list (map unat buf))"
    by (simp add: stats_loop_fold assms(1) fold_stats_sum stats_init_def)
  then show "unat (s_sum (stats_loop buf)) = sum_list (map unat buf)"
    using b by (simp add: unat_of_nat take_bit_nat_eq_self)
qed

lemma stats_avg_exact:
  assumes "length buf = LOG_SIZE" "\<forall>v\<in>set buf. unat v \<le> 4095"
  shows "unat (stats_avg (stats_loop buf)) = sum_list (map unat buf) div 50"
proof -
  have "unat (s_sum (stats_loop buf) div 50) = sum_list (map unat buf) div 50"
    by (simp add: unat_div stats_sum_exact(1) [OF assms])
  moreover have "sum_list (map unat buf) div 50 \<le> 4095"
    using stats_sum_exact(2) [OF assms] by simp
  ultimately show ?thesis
    by (simp add: stats_avg_def LOG_SIZE_def unsigned_ucast_eq take_bit_nat_eq_self)
qed


lemma log_dump_exact:
  assumes len: "length buf = LOG_SIZE" and rng: "\<forall>v\<in>set buf. unat v \<le> 4095"
  shows "log_dump buf =
           LogDump 50 (Min (set buf)) (Max (set buf))
             (of_nat (sum_list (map unat buf) div 50)) 3000
             (int (length (filter (\<lambda>v. 3000 < unat v) buf)))"
proof -
  have ne: "set buf \<noteq> {}"
    using len by (auto simp: LOG_SIZE_def)
  have "\<forall>v\<in>set buf. v \<le> 4095"
    using rng by (simp add: word_le_nat_alt)
  then have mn: "Min (insert 4095 (set buf)) = Min (set buf)"
    using ne by (simp add: min_absorb2)
  have mx: "Max (insert 0 (set buf)) = Max (set buf)"
    using ne by (simp add: max_absorb2)
  have av: "stats_avg (stats_loop buf) = of_nat (sum_list (map unat buf) div 50)"
    using stats_avg_exact [OF len rng] by (metis of_nat_unat ucast_id)
  show ?thesis
    by (simp add: log_dump_def Let_def av)
       (simp add: stats_loop_fold len fold_stats_min fold_stats_max fold_stats_over
          stats_init_def mn mx LOG_SIZE_def LIGHT_THRESHOLD_def)
qed

lemma replicate_update:
  "i < n \<Longrightarrow> (replicate n a)[i := b] = replicate i a @ b # replicate (n - Suc i) a"
  by (simp add: upd_conv_take_nth_drop min_def)

lemma log_dump_example:
  assumes "i < 50"
  shows "log_dump ((replicate 50 3100)[i := 100]) = LogDump 50 100 3100 3040 3000 49"
proof -
  let ?b = "(replicate 50 3100)[i := 100] :: u16 list"
  have eq: "?b = replicate i 3100 @ 100 # replicate (49 - i) 3100"
    using assms by (simp add: replicate_update)
  have len: "length ?b = LOG_SIZE"
    by (simp add: LOG_SIZE_def)
  have st: "set ?b = {100, 3100}"
    using assms by (auto simp: eq)
  have rng: "\<forall>v\<in>set ?b. unat v \<le> 4095"
    by (simp add: st)
  have sm: "sum_list (map unat ?b) = 152000"
    using assms by (simp add: eq sum_list_replicate)
  have ct: "length (filter (\<lambda>v. 3000 < unat v) ?b) = 49"
    using assms by (simp add: eq)
  show ?thesis
    by (simp only: log_dump_exact [OF len rng] sm ct st) simp
qed

section \<open>The circular log\<close>

lemma smod_nonneg: "0 \<le> k \<Longrightarrow> 0 < l \<Longrightarrow> (k::int) smod l = k mod l"
  by (simp add: smod_int_alt_def sgn_if)

lemma rotate_store:
  assumes "i < length xs"
  shows "rotate (Suc i mod length xs) (xs[i := v]) = tl (rotate i xs) @ [v]"
proof (cases "Suc i < length xs")
  case True
  then have "drop i xs \<noteq> []" by simp
  then have "tl (drop i xs @ take i xs) = drop (Suc i) xs @ take i xs"
    by (simp add: drop_Suc tl_drop)
  moreover have "take (Suc i) (xs[i := v]) = take i xs @ [v]"
    using assms by (simp add: take_Suc_conv_app_nth)
  ultimately show ?thesis
    using True by (simp add: rotate_drop_take)
next
  case False
  with assms have i: "Suc i = length xs" by simp
  then have "drop i xs = [xs ! i]"
    by (metis Cons_nth_drop_Suc assms drop_all order_refl)
  moreover have "xs[i := v] = take i xs @ [v]"
    using i assms by (simp add: upd_conv_take_nth_drop)
  ultimately show ?thesis
    using i assms by (simp add: rotate_drop_take)
qed

lemma iter_took:
  assumes "log_inv g"
  shows "\<exists>calls g'. LightSensorTask_iter v True g = Inr (calls, g') \<and> log_inv g' \<and>
           log_view g' = tl (log_view g) @ [of_int v]"
proof -
  let ?i = "nat (log_index g)"
  have i: "?i < length (adc_log g)" and n: "length (adc_log g) = 50"
    using assms by (auto simp: log_inv_def LOG_SIZE_def)
  have idx: "nat ((log_index g + 1) smod 50) = Suc ?i mod length (adc_log g)"
  proof -
    have "0 \<le> log_index g" using assms by (simp add: log_inv_def)
    then have "nat ((log_index g + 1) mod 50) = Suc (nat (log_index g)) mod 50"
      by (simp add: nat_mod_distrib nat_add_distrib)
    then show ?thesis
      using assms by (simp add: smod_nonneg log_inv_def n)
  qed
  have rng: "0 \<le> (log_index g + 1) smod 50 \<and> (log_index g + 1) smod 50 < 50"
    using assms by (simp add: smod_nonneg log_inv_def)
  show ?thesis
    using assms rng rotate_store [OF i, of "of_int v"]
    by (simp add: LightSensorTask_iter_def log_store_def log_advance_def log_inv_def
        log_view_def LOG_SIZE_def idx n)
qed


lemma iter_took_index:
  assumes "log_inv g" "LightSensorTask_iter v True g = Inr (calls, g')"
  shows "log_index g' = (log_index g + 1) mod 50"
  using assms
  by (auto simp: LightSensorTask_iter_def log_store_def log_advance_def log_inv_def
        LOG_SIZE_def smod_nonneg split: if_splits)

lemma iter_timeout:
  "LightSensorTask_iter v False g =
     Inr ([Print (SensorRead v), Take LogMutex (Some 10) False, Delay 200], g\<lparr>latest_adc := v\<rparr>)"
  by (simp add: LightSensorTask_iter_def)

lemma log_view_length: "log_inv g \<Longrightarrow> length (log_view g) = 50"
  by (simp add: log_inv_def log_view_def LOG_SIZE_def)

lemma run_view:
  assumes "log_inv g"
  shows "\<exists>g'. LightSensorTask_run evs g = Inr g' \<and> log_inv g' \<and>
           log_index g' = (log_index g + int (length (filter snd evs))) mod 50 \<and>
           log_view g' =
             drop (length (filter snd evs)) (log_view g @ map (of_int \<circ> fst) (filter snd evs))"
  using assms
proof (induction evs arbitrary: g)
  case Nil
  then show ?case by (simp add: log_inv_def LOG_SIZE_def)
next
  case (Cons e evs)
  obtain v took where e: "e = (v, took)" by (cases e)
  show ?case
  proof (cases took)
    case True
    from iter_took [OF Cons.prems, of v] obtain calls g1 where
      it: "LightSensorTask_iter v True g = Inr (calls, g1)" and inv1: "log_inv g1" and
      v1: "log_view g1 = tl (log_view g) @ [of_int v]"
      by blast
    have i1: "log_index g1 = (log_index g + 1) mod 50"
      using iter_took_index [OF Cons.prems it] .
    from Cons.IH [OF inv1] obtain g' where
      run: "LightSensorTask_run evs g1 = Inr g'" and inv': "log_inv g'" and
      i': "log_index g' = (log_index g1 + int (length (filter snd evs))) mod 50" and
      v': "log_view g' =
             drop (length (filter snd evs)) (log_view g1 @ map (of_int \<circ> fst) (filter snd evs))"
      by blast
    define k where "k = length (filter snd evs)"
    define ws :: "u16 list" where "ws = map (of_int \<circ> fst) (filter snd evs)"
    have f: "length (filter snd (e # evs)) = Suc k"
      "map (of_int \<circ> fst) (filter snd (e # evs)) = of_int v # ws"
      by (simp_all add: e True k_def ws_def)
    have ne: "log_view g \<noteq> []"
      using log_view_length [OF Cons.prems] by auto
    then have "log_view g = hd (log_view g) # tl (log_view g)" by simp
    then have "drop (Suc k) (log_view g @ of_int v # ws) =
               drop k (tl (log_view g) @ of_int v # ws)"
      by (metis append_Cons drop_Suc_Cons)
    also have "\<dots> = log_view g'"
      by (simp only: v' v1 k_def ws_def append_assoc append_Cons append_Nil)
    finally have view: "log_view g' = drop (Suc k) (log_view g @ of_int v # ws)"
      by (rule sym)
    have "(log_index g1 + int k) mod 50 = (log_index g + int (Suc k)) mod 50"
      by (simp add: i1 mod_simps add.assoc)
    then have idx: "log_index g' = (log_index g + int (Suc k)) mod 50"
      by (simp only: i' k_def)
    have run': "LightSensorTask_run (e # evs) g = Inr g'"
      using it run by (simp add: e True)
    show ?thesis
      unfolding f by (intro exI [of _ g'] conjI run' inv' idx view)
  next
    case False
    have inv1: "log_inv (g\<lparr>latest_adc := v\<rparr>)"
      using Cons.prems by (simp add: log_inv_def)
    from Cons.IH [OF inv1] show ?thesis
      by (simp add: e False iter_timeout log_view_def)
  qed
qed

lemma static_init_inv: "log_inv static_init"
  by (simp add: log_inv_def static_init_def LOG_SIZE_def)


section \<open>Debounce: claim C2\<close>

text \<open>
  Claim C2, as the specification states it, fails on its own example. With the tick period
  at 1 ms and the debounce time at its static initial value 0, the edge at tick 0 has
  elapsed time 0, which is below \<open>DEBOUNCE_MS\<close>: the handler discards it. The accepted
  edges of 0, 10, 40, 60 are therefore not those at 0 and 60.
\<close>

theorem debounce_first_edge_counterexample:
  "fst (isr_edges 1 [0, 10, 40, 60] static_init) \<noteq> [0, 60]"
  by (simp add: button_isr_handler_cases static_init_def DEBOUNCE_MS_def)

text \<open>
  Claim C2, amended. For every edge at tick \<open>now\<close> the handler compares the unsigned
  32-bit product of the elapsed ticks and the tick period with \<open>DEBOUNCE_MS\<close>: below it
  the edge is discarded and nothing changes, otherwise the debounce time becomes \<open>now\<close>
  and the semaphore is given. While neither the tick counter nor the product wraps, that
  product is the elapsed time in milliseconds. From the initial state, the edges at
  0, 10, 40, 60 ms give exactly one accepted event, the one at 60, and so do the edges at
  0, 60, 65 ms: the edge at 0 is within the first 50 ms and is discarded like the others.
  This is shown at a tick period of 1 ms and, with the times in ticks, at one of 10 ms.
\<close>

theorem button_isr_handler_debounce:
  "button_isr_handler p now g =
     (if (now - last_interrupt_time g) * p < DEBOUNCE_MS then ([], g)
      else ([GiveFromISR ButtonSem], g\<lparr>last_interrupt_time := now, xButtonSem := True\<rparr>))
   \<and> (last_interrupt_time g \<le> now \<and>
        (unat now - unat (last_interrupt_time g)) * unat p < 2 ^ 32 \<longrightarrow>
        ((now - last_interrupt_time g) * p < DEBOUNCE_MS) =
        ((unat now - unat (last_interrupt_time g)) * unat p < 50))
   \<and> fst (isr_edges 1 [0, 10, 40, 60] static_init) = [60]
   \<and> fst (isr_edges 1 [0, 60, 65] static_init) = [60]
   \<and> fst (isr_edges 10 [0, 1, 4, 6] static_init) = [6]
   \<and> fst (isr_edges 10 [0, 6, 6] static_init) = [6]"
proof (intro conjI impI)
  show "button_isr_handler p now g =
     (if (now - last_interrupt_time g) * p < DEBOUNCE_MS then ([], g)
      else ([GiveFromISR ButtonSem], g\<lparr>last_interrupt_time := now, xButtonSem := True\<rparr>))"
    by (rule button_isr_handler_cases)
next
  assume a: "last_interrupt_time g \<le> now \<and>
        (unat now - unat (last_interrupt_time g)) * unat p < 2 ^ 32"
  then show "((now - last_interrupt_time g) * p < DEBOUNCE_MS) =
        ((unat now - unat (last_interrupt_time g)) * unat p < 50)"
    by (simp add: word_less_nat_alt elapsed_ms_unat elapsed_ticks_unat DEBOUNCE_MS_def)
next
  show "fst (isr_edges 1 [0, 10, 40, 60] static_init) = [60]"
    by (simp add: button_isr_handler_cases static_init_def DEBOUNCE_MS_def)
next
  show "fst (isr_edges 1 [0, 60, 65] static_init) = [60]"
    by (simp add: button_isr_handler_cases static_init_def DEBOUNCE_MS_def)
next
  show "fst (isr_edges 10 [0, 1, 4, 6] static_init) = [6]"
    by (simp add: button_isr_handler_cases static_init_def DEBOUNCE_MS_def)
next
  show "fst (isr_edges 10 [0, 6, 6] static_init) = [6]"
    by (simp add: button_isr_handler_cases static_init_def DEBOUNCE_MS_def)
qed

text \<open>
  Claim C2, an instance: the edge at tick 60 from the initial state, where neither the
  tick difference nor the product wraps, is accepted.
\<close>

theorem button_isr_handler_debounce_witness:
  "last_interrupt_time static_init \<le> 60
   \<and> (unat (60 :: u32) - unat (last_interrupt_time static_init)) * unat (1 :: u32) < 2 ^ 32
   \<and> \<not> (unat (60 :: u32) - unat (last_interrupt_time static_init)) * unat (1 :: u32) < 50
   \<and> button_isr_handler 1 60 static_init =
       ([GiveFromISR ButtonSem], static_init\<lparr>last_interrupt_time := 60, xButtonSem := True\<rparr>)"
  using button_isr_handler_debounce [of 1 60 static_init]
  by (simp add: static_init_def)

text \<open>
  The product is reduced modulo \<open>2 ^ 32\<close>: at a 10 ms tick period an edge 429496730 ticks
  after the last accepted one has a product of 4 and is discarded.
\<close>

lemma product_wraps: "button_isr_handler 10 429496730 static_init = ([], static_init)"
  by (simp add: button_isr_handler_cases static_init_def DEBOUNCE_MS_def)

section \<open>Statistics: claims C3 and C9\<close>

lemma mono_unat: "mono (unat :: 'a::len word \<Rightarrow> nat)"
  by (simp add: mono_def word_le_nat_alt)

lemma fold_stats_over_bounds:
  "over_threshold_count a \<le> over_threshold_count (fold stats_step xs a) \<and>
   over_threshold_count (fold stats_step xs a) \<le> over_threshold_count a + int (length xs)"
  by (simp add: fold_stats_over)

text \<open>
  Claim C3. For every snapshot of \<open>LOG_SIZE\<close> samples, each at most 4095, the report
  holds the minimum, the maximum, the integer quotient of the sum by 50 and the number of
  values strictly above 3000. A buffer of 49 values 3100 and one value 100, wherever the
  100 stands, is reported with minimum 100, maximum 3100, average 3040 (the floor of
  152000 / 50) and 49 values above the threshold; a buffer whose sum is 101 has average 2.
\<close>

theorem log_dump_statistics:
  assumes len: "length buf = LOG_SIZE" and rng: "\<forall>v\<in>set buf. unat v \<le> 4095"
  shows "log_dump buf =
           LogDump 50 (Min (set buf)) (Max (set buf))
             (of_nat (sum_list (map unat buf) div 50)) 3000
             (int (length (filter (\<lambda>v. 3000 < unat v) buf)))
         \<and> (\<forall>i<50. log_dump ((replicate 50 3100)[i := 100]) = LogDump 50 100 3100 3040 3000 49)
         \<and> (sum_list (map unat buf) = 101 \<longrightarrow> stats_avg (stats_loop buf) = 2)"
proof (intro conjI allI impI)
  show "log_dump buf =
           LogDump 50 (Min (set buf)) (Max (set buf))
             (of_nat (sum_list (map unat buf) div 50)) 3000
             (int (length (filter (\<lambda>v. 3000 < unat v) buf)))"
    using len rng by (rule log_dump_exact)
next
  fix i :: nat
  assume "i < 50"
  then show "log_dump ((replicate 50 3100)[i := 100]) = LogDump 50 100 3100 3040 3000 49"
    by (rule log_dump_example)
next
  assume s: "sum_list (map unat buf) = 101"
  have "unat (stats_avg (stats_loop buf)) = 2"
    using stats_avg_exact [OF len rng] s by simp
  then show "stats_avg (stats_loop buf) = 2"
    by (simp add: word_unat_eq_iff)
qed

text \<open>
  Claim C3, an instance: 49 samples of value 2 and one of value 3 sum to 101; the report
  has minimum 2, maximum 3, average 2 and no value above the threshold.
\<close>

theorem log_dump_statistics_witness:
  "length (replicate 49 2 @ [3 :: u16]) = LOG_SIZE
   \<and> list_all (\<lambda>v. unat v \<le> 4095) (replicate 49 2 @ [3 :: u16])
   \<and> sum_list (map unat (replicate 49 2 @ [3 :: u16])) = 101
   \<and> log_dump (replicate 49 2 @ [3]) = LogDump 50 2 3 2 3000 0
   \<and> stats_avg (stats_loop (replicate 49 2 @ [3])) = 2"
proof -
  let ?b = "replicate 49 2 @ [3 :: u16]"
  have len: "length ?b = LOG_SIZE" by (simp add: LOG_SIZE_def)
  have rng: "\<forall>v\<in>set ?b. unat v \<le> 4095" by simp
  have sm: "sum_list (map unat ?b) = 101" by (simp add: sum_list_replicate)
  have st: "set ?b = {2, 3}" by auto
  from log_dump_statistics [OF len rng] sm st show ?thesis
    by (simp add: list_all_iff LOG_SIZE_def)
qed

text \<open>
  Claim C9. For every snapshot of \<open>LOG_SIZE\<close> samples, each at most 4095, the 32-bit sum
  equals the sum of the samples as natural numbers after every number of loop steps and
  at the end, where it is at most 50 * 4095 = 204750, below \<open>2 ^ 32\<close>; the 16-bit
  average equals the quotient of that sum by 50 and is at most 4095; minimum and maximum
  are those of the samples; the counter stays between 0 and 50. Nothing wraps around.
\<close>

theorem stats_no_wraparound:
  assumes len: "length buf = LOG_SIZE" and rng: "\<forall>v\<in>set buf. unat v \<le> 4095"
  shows "unat (s_sum (stats_loop buf)) = sum_list (map unat buf)
         \<and> sum_list (map unat buf) \<le> 50 * 4095
         \<and> (50 :: nat) * 4095 = 204750 \<and> (204750 :: nat) < 2 ^ 32
         \<and> (\<forall>k. unat (s_sum (fold stats_step (take k buf) stats_init)) =
                  sum_list (map unat (take k buf)))
         \<and> unat (stats_avg (stats_loop buf)) = sum_list (map unat buf) div 50
         \<and> unat (stats_avg (stats_loop buf)) \<le> 4095
         \<and> unat (s_min (stats_loop buf)) = Min (unat ` set buf)
         \<and> unat (s_max (stats_loop buf)) = Max (unat ` set buf)
         \<and> 0 \<le> over_threshold_count (stats_loop buf)
         \<and> over_threshold_count (stats_loop buf) \<le> 50"
proof -
  have ne: "set buf \<noteq> {}"
    using len by (auto simp: LOG_SIZE_def)
  have sm: "unat (s_sum (stats_loop buf)) = sum_list (map unat buf)"
    and bd: "sum_list (map unat buf) \<le> 204750"
    using stats_sum_exact [OF len rng] by simp_all
  have av: "unat (stats_avg (stats_loop buf)) = sum_list (map unat buf) div 50"
    using len rng by (rule stats_avg_exact)
  have avb: "unat (stats_avg (stats_loop buf)) \<le> 4095"
    using bd by (simp add: av)
  have pre: "unat (s_sum (fold stats_step (take k buf) stats_init)) =
               sum_list (map unat (take k buf))" for k
  proof -
    have "sum_list (map unat (take k buf)) \<le> length (take k buf) * 4095"
      using rng by (intro sum_list_bound) (auto dest: in_set_takeD)
    also have "\<dots> \<le> 50 * 4095"
      using len by (simp add: LOG_SIZE_def)
    finally have "sum_list (map unat (take k buf)) < 2 ^ 32" by simp
    then show ?thesis
      by (simp add: fold_stats_sum stats_init_def unat_of_nat take_bit_nat_eq_self)
  qed
  have "\<forall>v\<in>set buf. v \<le> 4095"
    using rng by (simp add: word_le_nat_alt)
  then have "Min (insert 4095 (set buf)) = Min (set buf)"
    using ne by (simp add: min_absorb2)
  then have mn: "s_min (stats_loop buf) = Min (set buf)"
    by (simp add: stats_loop_fold len fold_stats_min stats_init_def)
  have "Max (insert 0 (set buf)) = Max (set buf)"
    using ne by (simp add: max_absorb2)
  then have mx: "s_max (stats_loop buf) = Max (set buf)"
    by (simp add: stats_loop_fold len fold_stats_max stats_init_def)
  have mn': "unat (s_min (stats_loop buf)) = Min (unat ` set buf)"
    using ne by (simp add: mn mono_Min_commute [OF mono_unat])
  have mx': "unat (s_max (stats_loop buf)) = Max (unat ` set buf)"
    using ne by (simp add: mx mono_Max_commute [OF mono_unat])
  have ct: "0 \<le> over_threshold_count (stats_loop buf) \<and>
            over_threshold_count (stats_loop buf) \<le> 50"
    using fold_stats_over_bounds [of stats_init buf] len
    by (simp add: stats_loop_fold stats_init_def LOG_SIZE_def)
  show ?thesis
    using sm bd av avb pre mn' mx' ct by simp
qed

text \<open>
  Claim C9, an instance at the upper bound: 50 samples of value 4095 give the sum 204750
  and the average 4095.
\<close>

theorem stats_no_wraparound_witness:
  "length (replicate 50 (4095 :: u16)) = LOG_SIZE
   \<and> list_all (\<lambda>v. unat v \<le> 4095) (replicate 50 (4095 :: u16))
   \<and> unat (s_sum (stats_loop (replicate 50 4095))) = 204750
   \<and> unat (stats_avg (stats_loop (replicate 50 4095))) = 4095
   \<and> unat (s_min (stats_loop (replicate 50 4095))) = 4095
   \<and> unat (s_max (stats_loop (replicate 50 4095))) = 4095"
proof -
  let ?b = "replicate 50 (4095 :: u16)"
  have len: "length ?b = LOG_SIZE" by (simp add: LOG_SIZE_def)
  have rng: "\<forall>v\<in>set ?b. unat v \<le> 4095" by simp
  have sm: "sum_list (map unat ?b) = 204750" by (simp add: sum_list_replicate)
  from stats_no_wraparound [OF len rng] sm show ?thesis
    by (simp add: list_all_iff LOG_SIZE_def)
qed

section \<open>Circular log: claims C4 and C5\<close>

lemma run_60:
  "LightSensorTask_run (map (\<lambda>n. (int n, True)) [0..<60]) static_init =
     Inr (static_init\<lparr>adc_log := map of_nat ([50..<60] @ [10..<50]), log_index := 10,
                       latest_adc := 59\<rparr>)"
  by code_simp

lemma memcpy_u16_all:
  "length dst = length src \<Longrightarrow> memcpy_u16 dst src (length src) = src"
  by (simp add: memcpy_u16_def)

lemma filter_snd_took:
  "filter snd (map (\<lambda>n. (f n, True)) xs) = map (\<lambda>n. (f n, True)) xs"
  by (induction xs) simp_all

text \<open>
  Claim C4. From any state in which the array has \<open>LOG_SIZE\<close> elements and the index is
  inside it, every sequence of sensor iterations, with the mutex taken or not, runs
  without a fault and leaves the array at \<open>LOG_SIZE\<close> elements and the index in
  \<open>[0, LOG_SIZE)\<close>. Once at least \<open>LOG_SIZE\<close> samples have been stored, the log read in
  circular order from the index is exactly the last \<open>LOG_SIZE\<close> stored samples, oldest
  first. Storing 0 to 59 from the initial state leaves the index at 10 and a snapshot
  that, read from index 10, is 10 to 59.
\<close>

theorem circular_log_capacity:
  assumes inv: "log_inv g"
  shows "(\<exists>g'. LightSensorTask_run evs g = Inr g'
            \<and> length (adc_log g') = LOG_SIZE
            \<and> 0 \<le> log_index g' \<and> log_index g' < int LOG_SIZE
            \<and> (LOG_SIZE \<le> length (filter snd evs) \<longrightarrow>
                 log_view g' =
                   map (of_int \<circ> fst) (drop (length (filter snd evs) - LOG_SIZE) (filter snd evs))))
         \<and> (\<exists>g'. LightSensorTask_run (map (\<lambda>n. (int n, True)) [0..<60]) static_init = Inr g'
            \<and> log_index g' = 10
            \<and> (\<forall>buffer0. length buffer0 = LOG_SIZE \<longrightarrow>
                  snd (snapshot True buffer0 g') = map of_nat ([50..<60] @ [10..<50])
                  \<and> rotate (nat (log_index g')) (snd (snapshot True buffer0 g')) =
                      map of_nat [10..<60]))"
proof (rule conjI)
  from run_view [OF inv, of evs] obtain g' where
    run: "LightSensorTask_run evs g = Inr g'" and inv': "log_inv g'" and
    view: "log_view g' =
             drop (length (filter snd evs)) (log_view g @ map (of_int \<circ> fst) (filter snd evs))"
    by blast
  have "log_view g' =
          map (of_int \<circ> fst) (drop (length (filter snd evs) - LOG_SIZE) (filter snd evs))"
    if "LOG_SIZE \<le> length (filter snd evs)"
    using that log_view_length [OF inv] by (simp add: view LOG_SIZE_def drop_map)
  with run inv' show "\<exists>g'. LightSensorTask_run evs g = Inr g'
            \<and> length (adc_log g') = LOG_SIZE
            \<and> 0 \<le> log_index g' \<and> log_index g' < int LOG_SIZE
            \<and> (LOG_SIZE \<le> length (filter snd evs) \<longrightarrow>
                 log_view g' =
                   map (of_int \<circ> fst) (drop (length (filter snd evs) - LOG_SIZE) (filter snd evs)))"
    by (auto simp: log_inv_def)
next
  let ?g = "static_init\<lparr>adc_log := map of_nat ([50..<60] @ [10..<50]), log_index := 10,
                       latest_adc := 59\<rparr>"
  have a: "snd (snapshot True buffer0 ?g) = map of_nat ([50..<60] @ [10..<50])"
    if "length buffer0 = LOG_SIZE" for buffer0
    using that by (simp add: snapshot_def memcpy_u16_def LOG_SIZE_def)
  have b: "rotate 10 (map of_nat ([50..<60] @ [10..<50]) :: u16 list) = map of_nat [10..<60]"
    by code_simp
  have c: "log_index ?g = 10" by simp
  show "\<exists>g'. LightSensorTask_run (map (\<lambda>n. (int n, True)) [0..<60]) static_init = Inr g'
            \<and> log_index g' = 10
            \<and> (\<forall>buffer0. length buffer0 = LOG_SIZE \<longrightarrow>
                  snd (snapshot True buffer0 g') = map of_nat ([50..<60] @ [10..<50])
                  \<and> rotate (nat (log_index g')) (snd (snapshot True buffer0 g')) =
                      map of_nat [10..<60])"
  proof (intro exI [of _ ?g] conjI allI impI)
    fix buffer0 :: "u16 list"
    assume l: "length buffer0 = LOG_SIZE"
    show "rotate (nat (log_index ?g)) (snd (snapshot True buffer0 ?g)) = map of_nat [10..<60]"
      by (simp only: a [OF l] c b nat_numeral)
  qed (simp_all only: run_60 a c)
qed

text \<open>
  Claim C4, an instance: the initial state satisfies the invariant, and after the 60
  stores of 0 to 59 the log in circular order is 10 to 59.
\<close>

theorem circular_log_capacity_witness:
  "log_inv static_init
   \<and> LOG_SIZE \<le> length (filter snd (map (\<lambda>n. (int n, True)) [0..<60]))
   \<and> (\<exists>g'. LightSensorTask_run (map (\<lambda>n. (int n, True)) [0..<60]) static_init = Inr g'
         \<and> length (adc_log g') = LOG_SIZE
         \<and> log_view g' = map of_nat [10..<60])"
proof -
  let ?evs = "map (\<lambda>n. (int n, True)) [0..<60]"
  have f: "filter snd ?evs = ?evs" by (rule filter_snd_took)
  have l: "LOG_SIZE \<le> length (filter snd ?evs)"
    by (simp only: f) (simp add: LOG_SIZE_def)
  have d: "map (of_int \<circ> fst) (drop (length (filter snd ?evs) - LOG_SIZE) (filter snd ?evs)) =
           (map of_nat [10..<60] :: u16 list)"
    by (simp only: f) (simp add: LOG_SIZE_def drop_map comp_def)
  from circular_log_capacity [OF static_init_inv, of ?evs] obtain g' where
    "LightSensorTask_run ?evs static_init = Inr g'" "length (adc_log g') = LOG_SIZE"
    "LOG_SIZE \<le> length (filter snd ?evs) \<longrightarrow>
       log_view g' =
         map (of_int \<circ> fst) (drop (length (filter snd ?evs) - LOG_SIZE) (filter snd ?evs))"
    by blast
  with l d have "\<exists>g'. LightSensorTask_run ?evs static_init = Inr g'
         \<and> length (adc_log g') = LOG_SIZE \<and> log_view g' = map of_nat [10..<60]"
    by (intro exI [of _ g']) (simp only: simp_thms)
  with static_init_inv l show ?thesis by (intro conjI)
qed

text \<open>
  Claim C5. In a state that satisfies the array invariant, an iteration whose mutex wait
  of 10 ms succeeds stores the sample at the index (for a sample in \<open>[0, 4095]\<close> the
  stored element has that value), advances the index to \<open>(index + 1) mod 50\<close> and gives
  the mutex back; an iteration whose wait times out makes that one attempt only and
  changes neither the array nor the index. Both set \<open>latest_adc\<close> to the sample.
\<close>

theorem LightSensorTask_iter_append:
  assumes inv: "log_inv g"
  shows "LightSensorTask_iter v True g =
           Inr ([Print (SensorRead v), Take LogMutex (Some 10) True, Give LogMutex, Delay 200],
                g\<lparr>adc_log := (adc_log g)[nat (log_index g) := of_int v],
                   log_index := (log_index g + 1) mod 50, latest_adc := v\<rparr>)
         \<and> (0 \<le> v \<and> v \<le> 4095 \<longrightarrow>
              uint ((adc_log g)[nat (log_index g) := of_int v] ! nat (log_index g)) = v)
         \<and> LightSensorTask_iter v False g =
           Inr ([Print (SensorRead v), Take LogMutex (Some 10) False, Delay 200],
                g\<lparr>latest_adc := v\<rparr>)
         \<and> adc_log (g\<lparr>latest_adc := v\<rparr>) = adc_log g
         \<and> log_index (g\<lparr>latest_adc := v\<rparr>) = log_index g"
proof (intro conjI impI)
  show "LightSensorTask_iter v True g =
           Inr ([Print (SensorRead v), Take LogMutex (Some 10) True, Give LogMutex, Delay 200],
                g\<lparr>adc_log := (adc_log g)[nat (log_index g) := of_int v],
                   log_index := (log_index g + 1) mod 50, latest_adc := v\<rparr>)"
    using inv
    by (simp add: LightSensorTask_iter_def log_store_def log_advance_def log_inv_def
          LOG_SIZE_def smod_nonneg)
next
  assume v: "0 \<le> v \<and> v \<le> 4095"
  have "nat (log_index g) < length (adc_log g)"
    using inv by (auto simp: log_inv_def)
  moreover have "uint (word_of_int v :: u16) = v"
    using v by (simp add: uint_word_of_int take_bit_int_eq_self)
  ultimately show "uint ((adc_log g)[nat (log_index g) := of_int v] ! nat (log_index g)) = v"
    by simp
next
  show "LightSensorTask_iter v False g =
           Inr ([Print (SensorRead v), Take LogMutex (Some 10) False, Delay 200],
                g\<lparr>latest_adc := v\<rparr>)"
    by (rule iter_timeout)
qed simp_all

text \<open>
  Claim C5, an instance: the sample 1234 in the initial state, with the mutex taken and
  with the wait timed out.
\<close>

theorem LightSensorTask_iter_append_witness:
  "log_inv static_init \<and> (0::int) \<le> 1234 \<and> (1234::int) \<le> 4095
   \<and> LightSensorTask_iter 1234 True static_init =
       Inr ([Print (SensorRead 1234), Take LogMutex (Some 10) True, Give LogMutex, Delay 200],
            static_init\<lparr>adc_log := (replicate 50 0)[0 := 1234], log_index := 1,
                         latest_adc := 1234\<rparr>)
   \<and> LightSensorTask_iter 1234 False static_init =
       Inr ([Print (SensorRead 1234), Take LogMutex (Some 10) False, Delay 200],
            static_init\<lparr>latest_adc := 1234\<rparr>)"
  using LightSensorTask_iter_append [OF static_init_inv, of 1234] static_init_inv
  by (simp add: static_init_def LOG_SIZE_def)

section \<open>Logger iteration: claims C6, C7 and C10\<close>

lemma LoggerTask_iter_blocked: "\<not> xButtonSem g \<Longrightarrow> LoggerTask_iter took b g = None"
  by (simp add: LoggerTask_iter_def)

lemma LoggerTask_iter_calls:
  "xButtonSem g \<Longrightarrow>
   LoggerTask_iter took buffer0 g =
     Some ([Take ButtonSem None True, Led True, Delay 150, Led False, Print ButtonPressed]
           @ (if sensorTaskHandle g then [Suspend] else [])
           @ fst (snapshot took buffer0 g)
           @ (if sensorTaskHandle g then [Resume] else [])
           @ [Print (log_dump (snd (snapshot took buffer0 g)))],
           snd (snapshot took buffer0 g),
           g\<lparr>xButtonSem := False,
             sensor_suspended := (if sensorTaskHandle g then False else sensor_suspended g)\<rparr>)"
  by (simp add: LoggerTask_iter_def snapshot_def Let_def split_def)

lemma LoggerTask_run_blocked: "\<not> xButtonSem g \<Longrightarrow> LoggerTask_run env g = ([], g)"
  by (cases env) (auto simp: LoggerTask_iter_blocked)

lemma LoggerTask_run_once:
  assumes "xButtonSem g"
  shows "LoggerTask_run ((took, buffer0) # env) g =
           ([Take ButtonSem None True, Led True, Delay 150, Led False, Print ButtonPressed]
            @ (if sensorTaskHandle g then [Suspend] else [])
            @ fst (snapshot took buffer0 g)
            @ (if sensorTaskHandle g then [Resume] else [])
            @ [Print (log_dump (snd (snapshot took buffer0 g)))],
            g\<lparr>xButtonSem := False,
              sensor_suspended := (if sensorTaskHandle g then False else sensor_suspended g)\<rparr>)"
  by (simp add: LoggerTask_iter_calls [OF assms] LoggerTask_run_blocked)

lemma isr_edges_sem:
  "xButtonSem (snd (isr_edges p edges g)) = (xButtonSem g \<or> fst (isr_edges p edges g) \<noteq> [])"
  by (induction edges arbitrary: g)
     (auto simp: button_isr_handler_cases split_def Let_def)

lemma isr_edges_frame:
  "adc_log (snd (isr_edges p edges g)) = adc_log g
   \<and> log_index (snd (isr_edges p edges g)) = log_index g
   \<and> sensorTaskHandle (snd (isr_edges p edges g)) = sensorTaskHandle g
   \<and> sensor_suspended (snd (isr_edges p edges g)) = sensor_suspended g"
  by (induction edges arbitrary: g)
     (simp_all add: button_isr_handler_cases split_def Let_def)

lemma sum_list_u16_bound: "sum_list (map unat (xs :: u16 list)) \<le> length xs * 65535"
proof -
  have "\<forall>v\<in>set xs. unat v \<le> 65535"
  proof
    fix v :: u16
    have "unat v < 2 ^ LENGTH(16)" by (rule unsigned_less)
    then show "unat v \<le> 65535" by simp
  qed
  then show ?thesis by (rule sum_list_bound)
qed

lemma stats_avg_any:
  assumes len: "length b = LOG_SIZE"
  shows "unat (stats_avg (stats_loop b)) = sum_list (map unat b) div 50"
proof -
  have bd: "sum_list (map unat b) \<le> 3276750"
    using sum_list_u16_bound [of b] len by (simp add: LOG_SIZE_def)
  have "s_sum (stats_loop b) = of_nat (sum_list (map unat b))"
    by (simp add: stats_loop_fold len fold_stats_sum stats_init_def)
  then have "unat (s_sum (stats_loop b)) = sum_list (map unat b)"
    using bd by (simp add: unat_of_nat take_bit_nat_eq_self)
  then have "unat (s_sum (stats_loop b) div 50) = sum_list (map unat b) div 50"
    by (simp add: unat_div)
  moreover have "sum_list (map unat b) div 50 \<le> 65535"
    using bd by simp
  ultimately show ?thesis
    by (simp add: stats_avg_def LOG_SIZE_def unsigned_ucast_eq take_bit_nat_eq_self)
qed

text \<open>
  The report for any array of \<open>LOG_SIZE\<close> 16-bit values: the sum is at most 50 * 65535,
  below \<open>2 ^ 32\<close>, and its quotient by 50 fits 16 bits.
\<close>

lemma log_dump_fields:
  assumes len: "length b = LOG_SIZE"
  shows "log_dump b =
           LogDump 50 (Min (insert 4095 (set b))) (Max (insert 0 (set b)))
             (of_nat (sum_list (map unat b) div 50)) 3000
             (int (length (filter (\<lambda>v. 3000 < unat v) b)))"
proof -
  have av: "stats_avg (stats_loop b) = of_nat (sum_list (map unat b) div 50)"
    using stats_avg_any [OF len] by (metis of_nat_unat ucast_id)
  show ?thesis
    by (simp add: log_dump_def Let_def av)
       (simp add: stats_loop_fold len fold_stats_min fold_stats_max fold_stats_over
          stats_init_def LOG_SIZE_def LIGHT_THRESHOLD_def)
qed

lemma avg_fits:
  assumes "length (b :: u16 list) = LOG_SIZE"
  shows "unat (of_nat (sum_list (map unat b) div 50) :: u16) = sum_list (map unat b) div 50"
proof -
  have "sum_list (map unat b) \<le> 3276750"
    using sum_list_u16_bound [of b] assms by (simp add: LOG_SIZE_def)
  then have "sum_list (map unat b) div 50 < 2 ^ 16" by simp
  then show ?thesis
    by (simp add: unat_of_nat take_bit_nat_eq_self)
qed

text \<open>
  Claim C6. Giving the button semaphore when it is pending already changes nothing, and
  after a give it is pending. After any sequence of edges handled while the logger is
  blocked, of which at least one was accepted (or with the semaphore pending before), the
  logger, left to run alone for as many iterations as it can make, makes exactly the
  calls of one iteration: it takes the button semaphore once, acknowledges, suspends the
  sensor task if its handle is set, waits for the mutex once (and gives it back if it
  got it), resumes the sensor task, and prints one report, whose fields are the
  statistics of the snapshot (the log if the mutex was taken, the stale array if not).
  Then it is blocked again with the semaphore not pending. With no edge accepted and
  nothing pending it makes no call at all.
\<close>

theorem button_event_single_slot:
  "(xButtonSem g \<longrightarrow> xSemaphoreGiveFromISR g = g)
   \<and> xButtonSem (xSemaphoreGiveFromISR g)
   \<and> ((xButtonSem g \<or> fst (isr_edges p edges g) \<noteq> [])
        \<and> length buffer0 = LOG_SIZE \<and> length (adc_log g) = LOG_SIZE \<longrightarrow>
        (let b = (if took then adc_log g else buffer0) in
         LoggerTask_run ((took, buffer0) # env) (snd (isr_edges p edges g)) =
          ([Take ButtonSem None True, Led True, Delay 150, Led False, Print ButtonPressed]
           @ (if sensorTaskHandle g then [Suspend] else [])
           @ (if took then [Take LogMutex (Some 50) True, Give LogMutex]
              else [Take LogMutex (Some 50) False])
           @ (if sensorTaskHandle g then [Resume] else [])
           @ [Print (LogDump 50 (Min (insert 4095 (set b))) (Max (insert 0 (set b)))
                       (of_nat (sum_list (map unat b) div 50)) 3000
                       (int (length (filter (\<lambda>v. 3000 < unat v) b))))],
           (snd (isr_edges p edges g))
             \<lparr>xButtonSem := False,
              sensor_suspended := (if sensorTaskHandle g then False else sensor_suspended g)\<rparr>)))
   \<and> (\<not> xButtonSem g \<and> fst (isr_edges p edges g) = [] \<longrightarrow>
        LoggerTask_run env (snd (isr_edges p edges g)) = ([], snd (isr_edges p edges g)))"
proof (intro conjI impI)
  assume "xButtonSem g"
  then show "xSemaphoreGiveFromISR g = g"
    by (simp add: xSemaphoreGiveFromISR_def)
next
  show "xButtonSem (xSemaphoreGiveFromISR g)"
    by (simp add: xSemaphoreGiveFromISR_def)
next
  let ?g = "snd (isr_edges p edges g)"
  assume a: "(xButtonSem g \<or> fst (isr_edges p edges g) \<noteq> [])
        \<and> length buffer0 = LOG_SIZE \<and> length (adc_log g) = LOG_SIZE"
  then have pend: "xButtonSem ?g"
    by (simp add: isr_edges_sem)
  from a have lb: "length buffer0 = LOG_SIZE" and ll: "length (adc_log g) = LOG_SIZE"
    by simp_all
  have cp: "memcpy_u16 buffer0 (adc_log g) LOG_SIZE = adc_log g"
    using lb ll by (simp add: memcpy_u16_def)
  show "let b = (if took then adc_log g else buffer0) in
         LoggerTask_run ((took, buffer0) # env) ?g =
          ([Take ButtonSem None True, Led True, Delay 150, Led False, Print ButtonPressed]
           @ (if sensorTaskHandle g then [Suspend] else [])
           @ (if took then [Take LogMutex (Some 50) True, Give LogMutex]
              else [Take LogMutex (Some 50) False])
           @ (if sensorTaskHandle g then [Resume] else [])
           @ [Print (LogDump 50 (Min (insert 4095 (set b))) (Max (insert 0 (set b)))
                       (of_nat (sum_list (map unat b) div 50)) 3000
                       (int (length (filter (\<lambda>v. 3000 < unat v) b))))],
           ?g\<lparr>xButtonSem := False,
              sensor_suspended := (if sensorTaskHandle g then False else sensor_suspended g)\<rparr>)"
    unfolding LoggerTask_run_once [OF pend] Let_def
    by (simp add: snapshot_def isr_edges_frame cp log_dump_fields [OF lb] log_dump_fields [OF ll])
next
  let ?g = "snd (isr_edges p edges g)"
  assume "\<not> xButtonSem g \<and> fst (isr_edges p edges g) = []"
  then have "\<not> xButtonSem ?g"
    by (simp add: isr_edges_sem)
  then show "LoggerTask_run env ?g = ([], ?g)"
    by (rule LoggerTask_run_blocked)
qed

text \<open>
  Claim C6, an instance: three edges 60 ms apart are all accepted before the logger runs,
  and the logger, allowed two iterations, makes the calls of one, ending with the report
  of the empty log.
\<close>

theorem button_event_single_slot_witness:
  "\<not> xButtonSem (static_init\<lparr>sensorTaskHandle := True\<rparr>)
   \<and> fst (isr_edges 1 [60, 120, 180] (static_init\<lparr>sensorTaskHandle := True\<rparr>)) = [60, 120, 180]
   \<and> length (replicate 50 (7::u16)) = LOG_SIZE
   \<and> length (adc_log (static_init\<lparr>sensorTaskHandle := True\<rparr>)) = LOG_SIZE
   \<and> fst (LoggerTask_run [(True, replicate 50 7), (True, replicate 50 7)]
            (snd (isr_edges 1 [60, 120, 180] (static_init\<lparr>sensorTaskHandle := True\<rparr>)))) =
       [Take ButtonSem None True, Led True, Delay 150, Led False, Print ButtonPressed,
        Suspend, Take LogMutex (Some 50) True, Give LogMutex, Resume,
        Print (LogDump 50 0 0 0 3000 0)]"
proof -
  let ?g = "static_init\<lparr>sensorTaskHandle := True\<rparr>"
  have a: "fst (isr_edges 1 [60, 120, 180] ?g) = [60, 120, 180]"
    by (simp add: button_isr_handler_cases static_init_def DEBOUNCE_MS_def)
  have b: "\<not> xButtonSem ?g" by (simp add: static_init_def)
  have lb: "length (replicate 50 (7::u16)) = LOG_SIZE" by (simp add: LOG_SIZE_def)
  have ll: "length (adc_log ?g) = LOG_SIZE" by (simp add: static_init_def)
  have l: "adc_log ?g = replicate 50 0" by (simp add: static_init_def LOG_SIZE_def)
  have h: "sensorTaskHandle ?g" by simp
  have prem: "(xButtonSem ?g \<or> fst (isr_edges 1 [60, 120, 180] ?g) \<noteq> [])
        \<and> length (replicate 50 (7::u16)) = LOG_SIZE \<and> length (adc_log ?g) = LOG_SIZE"
    using a lb ll by (intro conjI disjI2) simp_all
  from button_event_single_slot
         [of ?g 1 "[60, 120, 180]" "replicate 50 7" True "[(True, replicate 50 7)]",
          THEN conjunct2, THEN conjunct2, THEN conjunct1, THEN mp, OF prem]
  have "fst (LoggerTask_run [(True, replicate 50 7), (True, replicate 50 7)]
            (snd (isr_edges 1 [60, 120, 180] ?g))) =
       [Take ButtonSem None True, Led True, Delay 150, Led False, Print ButtonPressed,
        Suspend, Take LogMutex (Some 50) True, Give LogMutex, Resume,
        Print (LogDump 50 0 0 0 3000 0)]"
    by (simp add: Let_def l sum_list_replicate)
  with a b lb ll show ?thesis by (intro conjI)
qed

text \<open>
  Claim C7. When the button semaphore is pending and the mutex wait of 50 ms times out,
  the logger iteration still completes, with exactly these calls: the acknowledgement,
  the suspend, the failed wait (no copy, no give), the resume, and the report. The array
  the statistics read is the stale \<open>buffer0\<close>, and the report printed holds its
  statistics: the smaller of 4095 and its minimum, its maximum, the quotient of its sum
  by 50 (which fits 16 bits) and the number of its values above 3000. The log and its
  index are unchanged and the sensor task is not left suspended. Afterwards the logger
  blocks on the button semaphore, and after the next accepted edge its next iteration,
  if the mutex wait succeeds, has the log as its snapshot.
\<close>

theorem LoggerTask_iter_timeout:
  assumes pend: "xButtonSem g" and len: "length buffer0 = LOG_SIZE"
  shows "LoggerTask_iter False buffer0 g =
           Some ([Take ButtonSem None True, Led True, Delay 150, Led False, Print ButtonPressed]
                 @ (if sensorTaskHandle g then [Suspend] else [])
                 @ [Take LogMutex (Some 50) False]
                 @ (if sensorTaskHandle g then [Resume] else [])
                 @ [Print (LogDump 50 (Min (insert 4095 (set buffer0)))
                            (Max (insert 0 (set buffer0)))
                            (of_nat (sum_list (map unat buffer0) div 50)) 3000
                            (int (length (filter (\<lambda>v. 3000 < unat v) buffer0))))],
                 buffer0,
                 g\<lparr>xButtonSem := False,
                   sensor_suspended := (if sensorTaskHandle g then False else sensor_suspended g)\<rparr>)
         \<and> unat (of_nat (sum_list (map unat buffer0) div 50) :: u16) =
             sum_list (map unat buffer0) div 50
         \<and> (\<forall>calls buf g'. LoggerTask_iter False buffer0 g = Some (calls, buf, g') \<longrightarrow>
               adc_log g' = adc_log g \<and> log_index g' = log_index g
               \<and> LoggerTask_iter took' b' g' = None
               \<and> (DEBOUNCE_MS \<le> (now - last_interrupt_time g) * p \<longrightarrow>
                    (\<exists>calls' g''. LoggerTask_iter True b' (snd (button_isr_handler p now g')) =
                       Some (calls', memcpy_u16 b' (adc_log g) LOG_SIZE, g''))))"
proof (intro conjI allI impI)
  show it: "LoggerTask_iter False buffer0 g =
           Some ([Take ButtonSem None True, Led True, Delay 150, Led False, Print ButtonPressed]
                 @ (if sensorTaskHandle g then [Suspend] else [])
                 @ [Take LogMutex (Some 50) False]
                 @ (if sensorTaskHandle g then [Resume] else [])
                 @ [Print (LogDump 50 (Min (insert 4095 (set buffer0)))
                            (Max (insert 0 (set buffer0)))
                            (of_nat (sum_list (map unat buffer0) div 50)) 3000
                            (int (length (filter (\<lambda>v. 3000 < unat v) buffer0))))],
                 buffer0,
                 g\<lparr>xButtonSem := False,
                   sensor_suspended := (if sensorTaskHandle g then False else sensor_suspended g)\<rparr>)"
    unfolding LoggerTask_iter_calls [OF pend]
    by (simp add: snapshot_def log_dump_fields [OF len])
  show "unat (of_nat (sum_list (map unat buffer0) div 50) :: u16) =
             sum_list (map unat buffer0) div 50"
    using len by (rule avg_fits)
  fix calls buf g'
  assume "LoggerTask_iter False buffer0 g = Some (calls, buf, g')"
  then have g': "g' = g\<lparr>xButtonSem := False,
                   sensor_suspended := (if sensorTaskHandle g then False else sensor_suspended g)\<rparr>"
    by (simp add: it)
  show "adc_log g' = adc_log g" "log_index g' = log_index g"
    by (simp_all add: g')
  show "LoggerTask_iter took' b' g' = None"
    by (simp add: g' LoggerTask_iter_blocked)
  assume acc: "DEBOUNCE_MS \<le> (now - last_interrupt_time g) * p"
  let ?h = "snd (button_isr_handler p now g')"
  have "xButtonSem ?h" "adc_log ?h = adc_log g"
    using acc by (simp_all add: button_isr_handler_def xSemaphoreGiveFromISR_def g')
  then show "\<exists>calls' g''. LoggerTask_iter True b' ?h =
                       Some (calls', memcpy_u16 b' (adc_log g) LOG_SIZE, g'')"
    by (simp add: LoggerTask_iter_calls snapshot_def)
qed

text \<open>
  Claim C7, an instance: a pending semaphore, a sensor task handle, a stale array of 49
  sevens and one 3107, and a timed-out mutex wait; the report has minimum 7, maximum
  3107, average 69 and one value above the threshold.
\<close>

theorem LoggerTask_iter_timeout_witness:
  "xButtonSem (static_init\<lparr>xButtonSem := True, sensorTaskHandle := True\<rparr>)
   \<and> length (replicate 49 7 @ [3107 :: u16]) = LOG_SIZE
   \<and> LoggerTask_iter False (replicate 49 7 @ [3107])
        (static_init\<lparr>xButtonSem := True, sensorTaskHandle := True\<rparr>) =
        Some ([Take ButtonSem None True, Led True, Delay 150, Led False, Print ButtonPressed,
               Suspend, Take LogMutex (Some 50) False, Resume,
               Print (LogDump 50 7 3107 69 3000 1)],
              replicate 49 7 @ [3107],
              static_init\<lparr>xButtonSem := False, sensorTaskHandle := True\<rparr>)"
proof -
  let ?g = "static_init\<lparr>xButtonSem := True, sensorTaskHandle := True\<rparr>"
  let ?b = "replicate 49 7 @ [3107 :: u16]"
  have p: "xButtonSem ?g" by simp
  have len: "length ?b = LOG_SIZE" by (simp add: LOG_SIZE_def)
  have st: "set ?b = {7, 3107}" by auto
  have sm: "sum_list (map unat ?b) = 3450" by (simp add: sum_list_replicate)
  have ct: "length (filter (\<lambda>v. 3000 < unat v) ?b) = 1" by simp
  have mn: "Min (insert 4095 {7, 3107 :: u16}) = 7" by simp
  have mx: "Max (insert 0 {7, 3107 :: u16}) = 3107" by simp
  have "LoggerTask_iter False ?b ?g =
        Some ([Take ButtonSem None True, Led True, Delay 150, Led False, Print ButtonPressed,
               Suspend, Take LogMutex (Some 50) False, Resume,
               Print (LogDump 50 7 3107 69 3000 1)],
              ?b, static_init\<lparr>xButtonSem := False, sensorTaskHandle := True\<rparr>)"
    using LoggerTask_iter_timeout [OF p len, THEN conjunct1]
    by (simp only: st sm ct mn mx) (simp add: static_init_def)
  with p len show ?thesis by (intro conjI)
qed

text \<open>
  Claim C10. Whether the mutex wait succeeds or times out, a logger iteration makes its
  calls in this order: the acknowledgement, \<open>Suspend\<close> if the sensor task handle is set,
  the mutex wait (followed by the give if it succeeded), \<open>Resume\<close> if the handle is set,
  the report. With the handle set the sensor task is not suspended afterwards; without
  it the iteration neither suspends nor resumes.
\<close>

theorem LoggerTask_iter_resumes_sensor:
  assumes pend: "xButtonSem g"
  shows "\<exists>g'. LoggerTask_iter took buffer0 g =
           Some ([Take ButtonSem None True, Led True, Delay 150, Led False, Print ButtonPressed]
                 @ (if sensorTaskHandle g then [Suspend] else [])
                 @ (if took then [Take LogMutex (Some 50) True, Give LogMutex]
                    else [Take LogMutex (Some 50) False])
                 @ (if sensorTaskHandle g then [Resume] else [])
                 @ [Print (log_dump (snd (snapshot took buffer0 g)))],
                 snd (snapshot took buffer0 g), g')
           \<and> sensor_suspended g' = (if sensorTaskHandle g then False else sensor_suspended g)"
  by (simp add: LoggerTask_iter_calls [OF pend] snapshot_def)

text \<open>
  Claim C10, an instance: with the handle set, both an iteration whose mutex wait times
  out and one whose wait succeeds call \<open>Suspend\<close> once, then \<open>Resume\<close> once, and leave
  the sensor task running.
\<close>

theorem LoggerTask_iter_resumes_sensor_witness:
  "xButtonSem (static_init\<lparr>xButtonSem := True, sensorTaskHandle := True\<rparr>)
   \<and> (\<exists>calls buf g'.
         LoggerTask_iter False (replicate 50 7)
           (static_init\<lparr>xButtonSem := True, sensorTaskHandle := True\<rparr>) = Some (calls, buf, g')
         \<and> filter (\<lambda>c. c = Suspend \<or> c = Resume) calls = [Suspend, Resume]
         \<and> \<not> sensor_suspended g')
   \<and> (\<exists>calls buf g'.
         LoggerTask_iter True (replicate 50 7)
           (static_init\<lparr>xButtonSem := True, sensorTaskHandle := True\<rparr>) = Some (calls, buf, g')
         \<and> filter (\<lambda>c. c = Suspend \<or> c = Resume) calls = [Suspend, Resume]
         \<and> \<not> sensor_suspended g')"
proof -
  let ?g = "static_init\<lparr>xButtonSem := True, sensorTaskHandle := True\<rparr>"
  have p: "xButtonSem ?g" by simp
  from LoggerTask_iter_resumes_sensor [OF p, of False "replicate 50 7"]
       LoggerTask_iter_resumes_sensor [OF p, of True "replicate 50 7"] p
  show ?thesis by auto
qed

section \<open>Startup: claim C8\<close>




section \<open>Concurrent snapshot: claim C1\<close>

lemma sys_inv_init: "length stale = LOG_SIZE \<Longrightarrow> sys_inv (sys_init stale)"
  by (simp add: sys_inv_def sys_init_def log_inv_def LOG_SIZE_def)

lemma sys_inv_edge:
  "sys_inv st \<Longrightarrow> sys_inv (snd (button_isr_handler p now st))"
  by (simp add: button_isr_handler_def xSemaphoreGiveFromISR_def sys_inv_def log_inv_def)

lemma set_update_history:
  assumes "\<forall>x\<in>set xs. x = 0 \<or> x \<in> f ` set h"
  shows "\<forall>x\<in>set (xs[i := f v]). x = 0 \<or> x \<in> f ` set (h @ [v])"
proof
  fix x assume "x \<in> set (xs[i := f v])"
  then have "x = f v \<or> x \<in> set xs"
    using set_update_subset_insert [of xs i "f v"] by auto
  with assms show "x = 0 \<or> x \<in> f ` set (h @ [v])" by auto
qed

lemma sys_inv_sensor:
  assumes "sys_inv st"
  shows "\<exists>st'. sensor_step v t st = Inr st' \<and> sys_inv st'"
proof (cases "sensor_suspended st")
  case True
  with assms show ?thesis by (simp add: sensor_step_def)
next
  case False
  show ?thesis
  proof (cases "sensor_pc st")
    case S_Read
    with assms False show ?thesis
      by (simp add: sensor_step_def sys_inv_def log_inv_def)
  next
    case S_Take
    with assms False show ?thesis
      by (auto simp: sensor_step_def sys_inv_def log_inv_def split: option.splits)
  next
    case S_Store
    with assms have m: "xLogMutex st = Some Sensor"
      by (simp add: sys_inv_def)
    have h: "\<forall>x\<in>set ((adc_log st)[nat (log_index st) := of_int (adc_val st)]).
               x = (0::u16) \<or> x \<in> of_int ` set (history st @ [adc_val st])"
      using assms by (intro set_update_history) (simp add: sys_inv_def)
    from assms S_Store False m h show ?thesis
      by (auto simp: sensor_step_def sys_inv_def log_inv_def log_store_def)
  next
    case S_Advance
    with assms False show ?thesis
      by (auto simp: sensor_step_def sys_inv_def log_inv_def log_advance_def LOG_SIZE_def
            smod_nonneg)
  next
    case S_Give
    with assms False show ?thesis
      by (auto simp: sensor_step_def sys_inv_def log_inv_def)
  next
    case S_Delay
    with assms False show ?thesis
      by (auto simp: sensor_step_def sys_inv_def log_inv_def)
  qed
qed


lemma copy_element:
  assumes "k < length xs" "length b = length xs" "take k b = take k xs"
  shows "take (Suc k) (b[k := xs ! k]) = take (Suc k) xs"
  using assms by (simp add: take_Suc_conv_app_nth)

lemma copy_last:
  assumes "Suc k = length xs" "length b = length xs" "take k b = take k xs"
  shows "b[k := xs ! k] = xs"
proof -
  have "take (Suc k) (b[k := xs ! k]) = take (Suc k) xs"
    using assms by (intro copy_element) simp_all
  then show ?thesis
    using assms by simp
qed

lemma sys_inv_logger:
  assumes "sys_inv st"
  shows "sys_inv (logger_step t st)"
proof (cases "logger_pc st")
  case L_Wait
  with assms show ?thesis
    by (auto simp: logger_step_def sys_inv_def log_inv_def)
next
  case L_Ack
  with assms show ?thesis
    by (auto simp: logger_step_def sys_inv_def log_inv_def)
next
  case L_Suspend
  with assms show ?thesis
    by (auto simp: logger_step_def sys_inv_def log_inv_def)
next
  case L_Take
  with assms show ?thesis
    by (auto simp: logger_step_def sys_inv_def log_inv_def LOG_SIZE_def split: option.splits)
next
  case (L_Copy k)
  with assms have k: "k < LOG_SIZE" and tk: "take k (buffer st) = take k (adc_log st)"
    and lb: "length (buffer st) = LOG_SIZE" and ll: "length (adc_log st) = LOG_SIZE"
    by (simp_all add: sys_inv_def log_inv_def)
  show ?thesis
  proof (cases "Suc k < LOG_SIZE")
    case True
    have "take (Suc k) ((buffer st)[k := adc_log st ! k]) = take (Suc k) (adc_log st)"
      using k tk lb ll by (intro copy_element) simp_all
    with assms L_Copy True lb show ?thesis
      by (auto simp: logger_step_def sys_inv_def log_inv_def)
  next
    case False
    with k have "Suc k = length (adc_log st)" by (simp add: ll)
    then have "(buffer st)[k := adc_log st ! k] = adc_log st"
      using tk lb ll by (intro copy_last) simp_all
    with assms L_Copy False show ?thesis
      by (auto simp: logger_step_def sys_inv_def log_inv_def)
  qed
next
  case L_Give
  with assms show ?thesis
    by (auto simp: logger_step_def sys_inv_def log_inv_def)
next
  case (L_Resume took)
  with assms show ?thesis
    by (auto simp: logger_step_def sys_inv_def log_inv_def)
next
  case (L_Report took)
  with assms show ?thesis
    by (auto simp: logger_step_def sys_inv_def log_inv_def)
qed

lemma sys_inv_step:
  "sys_inv st \<Longrightarrow> \<exists>st'. step p e st = Inr st' \<and> sys_inv st'"
  by (cases e) (simp_all add: sys_inv_edge sys_inv_sensor sys_inv_logger)

lemma sys_inv_run:
  "sys_inv st \<Longrightarrow> \<exists>st'. run p es st = Inr st' \<and> sys_inv st'"
proof (induction es arbitrary: st)
  case Nil
  then show ?case by simp
next
  case (Cons e es)
  from sys_inv_step [OF Cons.prems, of p e] obtain st1 where
    "step p e st = Inr st1" "sys_inv st1" by blast
  with Cons.IH [of st1] show ?case by simp
qed

lemma sensor_step_handle:
  "sensor_step v t st = Inr st' \<Longrightarrow> sensorTaskHandle st' = sensorTaskHandle st"
  by (cases "sensor_pc st")
     (auto simp: sensor_step_def log_store_def log_advance_def
        split: if_splits option.splits)

lemma logger_step_handle:
  "sensorTaskHandle (logger_step t st) = sensorTaskHandle st"
  by (cases "logger_pc st") (simp_all add: logger_step_def split: option.splits)

lemma step_handle:
  "step p e st = Inr st' \<Longrightarrow> sensorTaskHandle st' = sensorTaskHandle st"
  by (cases e)
     (auto simp: button_isr_handler_def xSemaphoreGiveFromISR_def logger_step_handle
        dest: sensor_step_handle split: if_splits)

lemma run_handle:
  "run p es st = Inr st' \<Longrightarrow> sensorTaskHandle st' = sensorTaskHandle st"
proof (induction es arbitrary: st)
  case Nil
  then show ?case by simp
next
  case (Cons e es)
  then show ?case
    by (auto split: sum.splits dest: step_handle)
qed

text \<open>
  Claim C1, amended. Under every interleaving of the sensor task, the logger task and the
  interrupt handler, no array access is out of bounds, and every snapshot whose mutex
  wait succeeded is a consistent copy: during the whole copy the logger owns the mutex,
  the sensor task is suspended and outside its critical section, and the elements copied
  so far equal those of the log; when the copy is complete, and until the sensor is
  resumed, the snapshot equals the log; and every value of the snapshot the statistics
  then read is 0 or a sample that was stored.
\<close>

theorem snapshot_consistent:
  assumes len: "length stale = LOG_SIZE"
  shows "\<exists>st. run p evs (sys_init stale) = Inr st
           \<and> (\<forall>k. logger_pc st = L_Copy k \<longrightarrow>
                 xLogMutex st = Some Logger \<and> sensor_suspended st
                 \<and> sensor_pc st \<notin> {S_Store, S_Advance, S_Give}
                 \<and> take k (buffer st) = take k (adc_log st))
           \<and> (logger_pc st = L_Give \<or> logger_pc st = L_Resume True \<longrightarrow>
                 sensor_suspended st \<and> buffer st = adc_log st)
           \<and> (logger_pc st = L_Resume True \<or> logger_pc st = L_Report True \<longrightarrow>
                 (\<forall>x\<in>set (buffer st). x = 0 \<or> x \<in> of_int ` set (history st)))"
proof -
  from sys_inv_run [OF sys_inv_init [OF len], of p evs] obtain st where
    run: "run p evs (sys_init stale) = Inr st" and inv: "sys_inv st"
    by blast
  have h: "sensorTaskHandle st"
    using run_handle [OF run] by (simp add: sys_init_def)
  from inv have
    i3: "(xLogMutex st = Some Sensor) = (sensor_pc st \<in> {S_Store, S_Advance, S_Give})" and
    i4: "(xLogMutex st = Some Logger) =
           (logger_pc st = L_Give \<or> (\<exists>k. logger_pc st = L_Copy k))" and
    i5: "\<forall>k. logger_pc st = L_Copy k \<longrightarrow>
           k < LOG_SIZE \<and> take k (buffer st) = take k (adc_log st)" and
    i6: "logger_pc st = L_Give \<or> (sensorTaskHandle st \<and> logger_pc st = L_Resume True) \<longrightarrow>
           buffer st = adc_log st" and
    i7: "sensorTaskHandle st \<longrightarrow>
           sensor_suspended st =
             (logger_pc st = L_Take \<or> logger_pc st = L_Give \<or> (\<exists>k. logger_pc st = L_Copy k)
              \<or> (\<exists>t. logger_pc st = L_Resume t))" and
    i9: "logger_pc st = L_Report True \<or> logger_pc st = L_Resume True \<longrightarrow>
           (\<forall>x\<in>set (buffer st). x = 0 \<or> x \<in> of_int ` set (history st))"
    unfolding sys_inv_def by blast+
  have a: "xLogMutex st = Some Logger \<and> sensor_suspended st
             \<and> sensor_pc st \<notin> {S_Store, S_Advance, S_Give}
             \<and> take k (buffer st) = take k (adc_log st)"
    if "logger_pc st = L_Copy k" for k
  proof -
    have m: "xLogMutex st = Some Logger" using i4 that by blast
    then have "xLogMutex st \<noteq> Some Sensor" by simp
    then have "sensor_pc st \<notin> {S_Store, S_Advance, S_Give}"
      using i3 by simp
    moreover have "sensor_suspended st" using i7 h that by blast
    moreover have "take k (buffer st) = take k (adc_log st)" using i5 that by blast
    ultimately show ?thesis using m by simp
  qed
  have b: "logger_pc st = L_Give \<or> logger_pc st = L_Resume True \<longrightarrow>
                 sensor_suspended st \<and> buffer st = adc_log st"
    using i6 i7 h by blast
  have c: "logger_pc st = L_Resume True \<or> logger_pc st = L_Report True \<longrightarrow>
                 (\<forall>x\<in>set (buffer st). x = 0 \<or> x \<in> of_int ` set (history st))"
    using i9 by blast
  from run a b c show ?thesis by blast
qed

lemma run_snapshot_ok:
  "map_sum id (\<lambda>st. (logger_pc st, buffer st, adc_log st, history st))
     (run 1 (replicate 5 (SensorRuns 1234 False) @ Edge 60 # replicate 56 (LoggerRuns False))
        (sys_init (replicate 50 7))) =
   Inr (L_Report True, (replicate 50 0)[0 := 1234], (replicate 50 0)[0 := 1234], [1234])"
  by code_simp

text \<open>
  Claim C1, as the specification states it, fails for a snapshot whose mutex wait times
  out. The button is pressed at tick 60 and the logger starts; the sensor reads 5 and
  takes the mutex; the logger suspends it there, so its own wait can only time out;
  nothing is copied, the sensor is resumed, and the report is computed from the stale
  array of sevens, although the log holds only zeros and no sample was stored.
\<close>

theorem snapshot_timeout_counterexample:
  "map_sum id (\<lambda>st. (logger_pc st, buffer st, adc_log st, history st, printed st))
     (run 1 [Edge 60, LoggerRuns False, SensorRuns 5 False, SensorRuns 5 False,
             LoggerRuns False, LoggerRuns False, LoggerRuns True, LoggerRuns False,
             LoggerRuns False]
        (sys_init (replicate 50 7))) =
   Inr (L_Wait, replicate 50 7, replicate 50 0, [], [LogDump 50 7 7 7 3000 0])"
  by code_simp

text \<open>
  Claim C1, an instance: the sensor stores 1234, the button is pressed, and the logger
  runs up to its report with the mutex wait succeeding; the snapshot is the log with
  1234 in its first element.
\<close>

theorem snapshot_consistent_witness:
  "length (replicate 50 (7::u16)) = LOG_SIZE
   \<and> (\<exists>st. run 1 (replicate 5 (SensorRuns 1234 False) @ Edge 60 # replicate 56 (LoggerRuns False))
              (sys_init (replicate 50 7)) = Inr st
         \<and> logger_pc st = L_Report True
         \<and> buffer st = (replicate 50 0)[0 := 1234]
         \<and> history st = [1234]
         \<and> list_all (\<lambda>x. x = 0 \<or> x \<in> of_int ` set (history st)) (buffer st))"
proof -
  let ?evs = "replicate 5 (SensorRuns 1234 False) @ Edge 60 # replicate 56 (LoggerRuns False)"
  have len: "length (replicate 50 (7::u16)) = LOG_SIZE"
    by (simp add: LOG_SIZE_def)
  from snapshot_consistent [OF len, of 1 ?evs] obtain st where
    run: "run 1 ?evs (sys_init (replicate 50 7)) = Inr st" and
    vals: "logger_pc st = L_Resume True \<or> logger_pc st = L_Report True \<longrightarrow>
             (\<forall>x\<in>set (buffer st). x = 0 \<or> x \<in> of_int ` set (history st))"
    by blast
  have st: "logger_pc st = L_Report True" "buffer st = (replicate 50 0)[0 := 1234]"
    "history st = [1234]"
    using run_snapshot_ok by (simp_all add: run)
  with vals have "list_all (\<lambda>x. x = 0 \<or> x \<in> of_int ` set (history st)) (buffer st)"
    by (simp only: list_all_iff simp_thms)
  with run st have "\<exists>st. run 1 ?evs (sys_init (replicate 50 7)) = Inr st
         \<and> logger_pc st = L_Report True
         \<and> buffer st = (replicate 50 0)[0 := 1234]
         \<and> history st = [1234]
         \<and> list_all (\<lambda>x. x = 0 \<or> x \<in> of_int ` set (history st)) (buffer st)"
    by (intro exI [of _ st] conjI)
  with len show ?thesis by (rule conjI)
qed

section \<open>Statements and whole iterations agree\<close>

text \<open>
  The initial system has the static variables as \<open>app_main\<close> leaves them after program
  load.
\<close>

lemma sys_init_app_main:
  "app_main True True True static_init = Inr (globals.truncate (sys_init stale))"
  by (simp add: app_main_def static_init_def sys_init_def globals.truncate_def)

text \<open>
  The six statements of a sensor iteration, run without interruption with the mutex free,
  change the static variables as the iteration taken as a whole does.
\<close>

lemma sensor_steps_iter:
  assumes "sensor_pc st = S_Read" "\<not> sensor_suspended st" "xLogMutex st = None" "log_inv st"
  shows "\<exists>st' calls g'. run p (replicate 6 (SensorRuns v t)) st = Inr st'
           \<and> LightSensorTask_iter v True (globals.truncate st) = Inr (calls, g')
           \<and> globals.truncate st' = g'
           \<and> sensor_pc st' = S_Read \<and> xLogMutex st' = None"
  using assms
  by (simp add: numeral_eq_Suc sensor_step_def LightSensorTask_iter_def log_store_def
        log_advance_def log_inv_def globals.truncate_def)


lemma run_append:
  "run p (xs @ ys) st = (case run p xs st of Inl f \<Rightarrow> Inl f | Inr st' \<Rightarrow> run p ys st')"
  by (induction xs arbitrary: st) (simp_all split: sum.splits)

lemma copy_loop:
  assumes "logger_pc st = L_Copy k" "k < LOG_SIZE" "length (buffer st) = LOG_SIZE"
    "length (adc_log st) = LOG_SIZE" "take k (buffer st) = take k (adc_log st)"
    "n = LOG_SIZE - k"
  shows "run p (replicate n (LoggerRuns t)) st =
           Inr (st\<lparr>logger_pc := L_Give, buffer := adc_log st\<rparr>)"
  using assms
proof (induction n arbitrary: st k)
  case 0
  then show ?case by simp
next
  case (Suc n)
  let ?st1 = "logger_step t st"
  have s1: "?st1 = st\<lparr>buffer := (buffer st)[k := adc_log st ! k],
                       logger_pc := (if Suc k < LOG_SIZE then L_Copy (Suc k) else L_Give)\<rparr>"
    using Suc.prems(1) by (simp add: logger_step_def)
  show ?case
  proof (cases "Suc k < LOG_SIZE")
    case True
    have "take (Suc k) ((buffer st)[k := adc_log st ! k]) = take (Suc k) (adc_log st)"
      using Suc.prems by (intro copy_element) simp_all
    with Suc.prems True have
      "run p (replicate n (LoggerRuns t)) ?st1 =
         Inr (?st1\<lparr>logger_pc := L_Give, buffer := adc_log ?st1\<rparr>)"
      by (intro Suc.IH [of _ "Suc k"]) (simp_all add: s1)
    then show ?thesis
      by (simp add: s1)
  next
    case False
    with Suc.prems have k: "Suc k = length (adc_log st)" and n: "n = 0"
      by simp_all
    have "(buffer st)[k := adc_log st ! k] = adc_log st"
      using k Suc.prems by (intro copy_last) simp_all
    then show ?thesis
      using False n by (simp add: s1)
  qed
qed

text \<open>
  The 57 statements of a logger iteration (four up to the mutex wait, the 50 element
  copies, the give, the resume and the report), run without interruption with the mutex
  free, give the snapshot, the report and the static variables of the iteration taken as
  a whole.
\<close>

lemma logger_steps_iter:
  assumes pc: "logger_pc st = L_Wait" and pend: "xButtonSem st" and free: "xLogMutex st = None"
    and lb: "length (buffer st) = LOG_SIZE" and ll: "length (adc_log st) = LOG_SIZE"
  shows "\<exists>st' calls buf g'. run p (replicate 57 (LoggerRuns t)) st = Inr st'
           \<and> LoggerTask_iter True (buffer st) (globals.truncate st) = Some (calls, buf, g')
           \<and> globals.truncate st' = g' \<and> buffer st' = buf
           \<and> printed st' = printed st @ [log_dump buf]
           \<and> logger_pc st' = L_Wait \<and> xLogMutex st' = None"
proof -
  define st4 where "st4 = st\<lparr>xButtonSem := False,
      sensor_suspended := (if sensorTaskHandle st then True else sensor_suspended st),
      xLogMutex := Some Logger, logger_pc := L_Copy 0\<rparr>"
  have r4: "run p (replicate 4 (LoggerRuns t)) st = Inr st4"
    using pc pend free by (simp add: numeral_eq_Suc logger_step_def st4_def)
  have r50: "run p (replicate 50 (LoggerRuns t)) st4 =
               Inr (st4\<lparr>logger_pc := L_Give, buffer := adc_log st4\<rparr>)"
    using lb ll by (intro copy_loop [of _ 0]) (simp_all add: st4_def LOG_SIZE_def)
  define st57 where "st57 = st\<lparr>xButtonSem := False,
      sensor_suspended := (if sensorTaskHandle st then False else sensor_suspended st),
      xLogMutex := None, logger_pc := L_Wait, buffer := adc_log st,
      printed := printed st @ [log_dump (adc_log st)]\<rparr>"
  have r3: "run p (replicate 3 (LoggerRuns t)) (st4\<lparr>logger_pc := L_Give, buffer := adc_log st4\<rparr>) =
              Inr st57"
    by (simp add: numeral_eq_Suc logger_step_def st4_def st57_def)
  have "replicate 57 (LoggerRuns t) =
          replicate 4 (LoggerRuns t) @ replicate 50 (LoggerRuns t) @ replicate 3 (LoggerRuns t)"
    by (simp add: replicate_add [symmetric])
  then have run: "run p (replicate 57 (LoggerRuns t)) st = Inr st57"
    by (simp only: run_append r4 r50 r3 sum.case)
  have cp: "memcpy_u16 (buffer st) (adc_log st) LOG_SIZE = adc_log st"
    using lb ll by (simp add: memcpy_u16_def)
  show ?thesis
    using pend
    by (simp add: run LoggerTask_iter_def snapshot_def Let_def globals.truncate_def cp st57_def)
qed

end
